theory Spec2Isabelle
  imports Main
begin

section \<open>JSON output of scan results (formattedcode/output_json.py)\<close>

text \<open>
  The module writes the results of a scan (a codebase: headers, optional top-level
  attributes, and one record per scanned file) as one JSON object, either to a sink
  (\<open>write_results\<close>) or as an in-memory ordered mapping (\<open>get_results\<close>).

  The two functions are embedded from the source. What they call and the source does
  not contain (the codebase, \<open>OutputPlugin.get_files\<close>, the \<open>jsonstreams\<close> encoder,
  \<open>open\<close>) is modelled from the specification, each definition saying so.
\<close>

subsection \<open>Values\<close>

text \<open>
  JSON-serializable Python values. Numbers are Python's unbounded integers; floating
  point numbers are not part of this model.
\<close>

datatype json =
    JNull
  | JBool bool
  | JInt int
  | JStr string
  | JArr "json list"
  | JObj "(string \<times> json) list"

text \<open>
  What can go wrong: \<open>open\<close> cannot open the path; the collaborator raises while a file
  record is produced; the encoder is handed a value that is not JSON-serializable.
\<close>

datatype error = IOError | CollaboratorError string | TypeError

text \<open>
  The values the module handles: a JSON-serializable value, or the lazy \<open>map()\<close> object
  of Python 3 that \<open>get_files\<close> returns. The items of a map object are produced on
  demand, and producing one may raise.
\<close>

datatype pyval = Json json | MapObject "(error + json) list"

text \<open>Keyword arguments handed through to \<open>get_files\<close>; their meaning is opaque here.\<close>

type_synonym kwargs = "(string \<times> json) list"

subsection \<open>Ordered dictionaries\<close>

text \<open>
  A Python dict (and \<open>OrderedDict\<close>) keeps insertion order: storing under a key that is
  present replaces the value where it stands, storing under a new key appends.
\<close>

type_synonym 'v odict = "(string \<times> 'v) list"

fun dict_set :: "'v odict \<Rightarrow> string \<Rightarrow> 'v \<Rightarrow> 'v odict" where
  "dict_set [] k v = [(k, v)]"
| "dict_set ((k', v') # d) k v =
     (if k' = k then (k, v) # d else (k', v') # dict_set d k v)"

text \<open>\<open>d.update(e)\<close>: store each item of \<open>e\<close>, in order.\<close>

fun dict_update :: "'v odict \<Rightarrow> 'v odict \<Rightarrow> 'v odict" where
  "dict_update d [] = d"
| "dict_update d ((k, v) # e) = dict_update (dict_set d k v) e"

definition keys :: "'v odict \<Rightarrow> string list" where
  "keys d = map fst d"

subsection \<open>The streaming encoder\<close>

text \<open>
  Modelled from the spec: the \<open>jsonstreams\<close> library and the JSON encoder behind it are
  not part of the sources. Section 4.1 of the specification gives the contract that is
  modelled here: an object scope is opened on a sink, entries are written key by key,
  each value serialized atomically and recursively, and the scope is closed. With
  \<open>indent = None\<close> no whitespace is inserted between tokens; with \<open>indent = Some n\<close> each
  nesting level adds \<open>n\<close> spaces of indentation and every entry stands on a line of its
  own. Strings follow the JSON escaping rules: the quote, the backslash and the control
  characters are escaped, every other character is kept.
\<close>

definition digit_char :: "nat \<Rightarrow> char" where
  "digit_char d = ''0123456789abcdef'' ! (d mod 16)"

fun str_nat :: "nat \<Rightarrow> string" where
  "str_nat n =
     (if n < 10 then [digit_char n] else str_nat (n div 10) @ [digit_char (n mod 10)])"

declare str_nat.simps [simp del]

definition str_int :: "int \<Rightarrow> string" where
  "str_int i = (if i < 0 then CHR ''-'' # str_nat (nat (- i)) else str_nat (nat i))"

definition escape_char :: "char \<Rightarrow> string" where
  "escape_char c =
     (if c = CHR 0x22 then [CHR 0x5C, CHR 0x22]
      else if c = CHR 0x5C then [CHR 0x5C, CHR 0x5C]
      else if c = CHR 0x0A then [CHR 0x5C, CHR ''n'']
      else if c = CHR 0x0D then [CHR 0x5C, CHR ''r'']
      else if c = CHR 0x09 then [CHR 0x5C, CHR ''t'']
      else if c = CHR 0x08 then [CHR 0x5C, CHR ''b'']
      else if c = CHR 0x0C then [CHR 0x5C, CHR ''f'']
      else if (of_char c :: nat) < 32
        then [CHR 0x5C, CHR ''u'', CHR ''0'', CHR ''0'',
              digit_char (of_char c div 16), digit_char (of_char c mod 16)]
      else [c])"

definition encode_string :: "string \<Rightarrow> string" where
  "encode_string s = CHR 0x22 # concat (map escape_char s) @ [CHR 0x22]"

text \<open>The line break and indentation in front of an entry at nesting level \<open>lvl\<close>.\<close>

definition newline_indent :: "nat option \<Rightarrow> nat \<Rightarrow> string" where
  "newline_indent ind lvl =
     (case ind of None \<Rightarrow> [] | Some n \<Rightarrow> CHR 0x0A # replicate (n * lvl) CHR '' '')"

fun encode :: "nat option \<Rightarrow> nat \<Rightarrow> json \<Rightarrow> string"
  and encode_items :: "nat option \<Rightarrow> nat \<Rightarrow> json list \<Rightarrow> string"
  and encode_members :: "nat option \<Rightarrow> nat \<Rightarrow> (string \<times> json) list \<Rightarrow> string"
where
  "encode ind lvl JNull = ''null''"
| "encode ind lvl (JBool b) = (if b then ''true'' else ''false'')"
| "encode ind lvl (JInt i) = str_int i"
| "encode ind lvl (JStr s) = encode_string s"
| "encode ind lvl (JArr xs) =
     (if xs = [] then ''[]''
      else ''['' @ encode_items ind (Suc lvl) xs @ newline_indent ind lvl @ '']'')"
| "encode ind lvl (JObj ms) =
     (if ms = [] then ''{}''
      else ''{'' @ encode_members ind (Suc lvl) ms @ newline_indent ind lvl @ ''}'')"
| "encode_items ind lvl [] = []"
| "encode_items ind lvl (x # xs) =
     newline_indent ind lvl @ encode ind lvl x
       @ (if xs = [] then [] else '','' @ encode_items ind lvl xs)"
| "encode_members ind lvl [] = []"
| "encode_members ind lvl ((k, v) # ms) =
     newline_indent ind lvl @ encode_string k @ '':'' @ encode ind lvl v
       @ (if ms = [] then [] else '','' @ encode_members ind lvl ms)"

text \<open>
  The value handed to a write: a map object is not JSON-serializable (the comment at
  line 155 of the source), everything else is encoded.
\<close>

definition encode_value :: "nat option \<Rightarrow> nat \<Rightarrow> pyval \<Rightarrow> error + string" where
  "encode_value ind lvl v =
     (case v of Json j \<Rightarrow> Inr (encode ind lvl j) | MapObject items \<Rightarrow> Inl TypeError)"

subsection \<open>Sinks and output descriptors\<close>

text \<open>
  A sink is a writable file object: the text written to it so far, and how many times
  \<open>close()\<close> was called on it. The output descriptor of \<open>write_results\<close> is a path
  string or a sink that is already open.
\<close>

record sink =
  written :: string
  close_calls :: nat

definition sink_write :: "sink \<Rightarrow> string \<Rightarrow> sink" where
  "sink_write f t = f\<lparr>written := written f @ t\<rparr>"

definition sink_close :: "sink \<Rightarrow> sink" where
  "sink_close f = f\<lparr>close_calls := Suc (close_calls f)\<rparr>"

datatype output_descriptor = Path string | OpenSink sink

text \<open>
  The runtime: whether it is Python 3 (\<open>commoncode.system.py3\<close>; Python 2 otherwise), and
  which paths \<open>open\<close> can open for writing.
\<close>

record env =
  py3 :: bool
  openable :: "string \<Rightarrow> bool"

text \<open>The module constant \<open>mode\<close> (lines 67 to 79 of the source).\<close>

definition mode :: "bool \<Rightarrow> string" where
  "mode p3 = (if p3 then ''w'' else ''wb'')"

text \<open>
  Modelled from the spec: the builtin \<open>open(path, mode)\<close>. Both modes truncate, so the
  file object starts empty and open; a path that cannot be opened raises.
\<close>

definition py_open :: "env \<Rightarrow> string \<Rightarrow> string \<Rightarrow> error + sink" where
  "py_open e path m =
     (if openable e path then Inr \<lparr>written = [], close_calls = 0\<rparr> else Inl IOError)"

subsection \<open>The stream object\<close>

text \<open>
  Modelled from the spec: \<open>jsonstreams.Stream(Type.object, fd, close_fd, indent, pretty)\<close>
  used as a context manager. Entering opens the top-level object scope on the sink;
  \<open>write\<close> serializes one entry; leaving the \<open>with\<close> block, normally or by an exception,
  closes the scope and then closes the sink when \<open>close_fd\<close> is set, and only then.
  \<open>st_log\<close> is the trace of the \<open>write\<close> calls made on the stream, each with the value
  as it was handed over.
  The specification describes two configurations, \<open>indent = None\<close> with
  \<open>pretty = False\<close> and \<open>indent = Some n\<close> with \<open>pretty = True\<close>, the two that
  \<open>write_results\<close> builds; the layout follows \<open>indent\<close>.
\<close>

record stream =
  st_fd :: sink
  st_close_fd :: bool
  st_indent :: "nat option"
  st_pretty :: bool
  st_comma :: bool
  st_log :: "(string \<times> pyval) list"

definition Stream :: "sink \<Rightarrow> bool \<Rightarrow> nat option \<Rightarrow> bool \<Rightarrow> stream" where
  "Stream f cfd ind pr =
     \<lparr>st_fd = sink_write f ''{'', st_close_fd = cfd, st_indent = ind, st_pretty = pr,
      st_comma = False, st_log = []\<rparr>"

definition stream_write :: "stream \<Rightarrow> string \<Rightarrow> pyval \<Rightarrow> error option \<times> stream" where
  "stream_write s key v =
     (let s' = s\<lparr>st_log := st_log s @ [(key, v)]\<rparr> in
      case encode_value (st_indent s) 1 v of
        Inl err \<Rightarrow> (Some err, s')
      | Inr t \<Rightarrow>
          (None,
           s'\<lparr>st_fd := sink_write (st_fd s)
                  ((if st_comma s then '','' else []) @ newline_indent (st_indent s) 1
                    @ encode_string key @ '':'' @ t),
               st_comma := True\<rparr>))"

definition stream_exit :: "stream \<Rightarrow> stream" where
  "stream_exit s =
     (let f = sink_write (st_fd s)
                ((if st_comma s then newline_indent (st_indent s) 0 else []) @ ''}'')
      in s\<lparr>st_fd := (if st_close_fd s then sink_close f else f)\<rparr>)"

subsection \<open>The codebase and the output plugin\<close>

text \<open>
  Modelled from the spec: the codebase collaborator (sections 3 and 6). It holds the
  header mapping, the optional attributes object (\<open>None\<close> when the run collected none)
  and the scanned resources. The options a caller passes select fields and filter:
  \<open>selected\<close> says which resources the options keep, \<open>to_dict\<close> serializes one
  resource under them and may raise. \<open>calls\<close> is the trace of the collaborator's
  methods called so far.
\<close>

datatype call = AddFilesCount | GetHeaders | GetFiles kwargs

record 'r codebase =
  headers :: "json odict"
  attributes :: "json odict option"
  resources :: "'r list"
  selected :: "kwargs \<Rightarrow> 'r \<Rightarrow> bool"
  to_dict :: "kwargs \<Rightarrow> 'r \<Rightarrow> error + json"
  calls :: "call list"

text \<open>
  Modelled from the spec: \<open>Codebase.add_files_count_to_current_header\<close> stores the
  number of file records the codebase holds in the header mapping, under
  \<open>files_count\<close>. It is called with no argument (lines 143 and 167), so the count
  cannot follow the options that \<open>get_files\<close> is given.
\<close>

definition add_files_count_to_current_header :: "'r codebase \<Rightarrow> 'r codebase" where
  "add_files_count_to_current_header cb =
     cb\<lparr>headers := dict_set (headers cb) ''files_count'' (JInt (int (length (resources cb)))),
        calls := calls cb @ [AddFilesCount]\<rparr>"

text \<open>Modelled from the spec: \<open>Codebase.get_headers\<close> returns the header mapping.\<close>

definition get_headers :: "'r codebase \<Rightarrow> json odict \<times> 'r codebase" where
  "get_headers cb = (headers cb, cb\<lparr>calls := calls cb @ [GetHeaders]\<rparr>)"

text \<open>The builtin \<open>list(x)\<close>: drains a map object, stopping at the first item that raises.\<close>

fun drain :: "(error + json) list \<Rightarrow> error + json list" where
  "drain [] = Inr []"
| "drain (Inl err # items) = Inl err"
| "drain (Inr x # items) = (case drain items of Inl err \<Rightarrow> Inl err | Inr xs \<Rightarrow> Inr (x # xs))"

definition py_list :: "pyval \<Rightarrow> error + pyval" where
  "py_list v =
     (case v of
        MapObject items \<Rightarrow> (case drain items of Inl err \<Rightarrow> Inl err | Inr xs \<Rightarrow> Inr (Json (JArr xs)))
      | Json (JArr xs) \<Rightarrow> Inr (Json (JArr xs))
      | Json (JObj ms) \<Rightarrow> Inr (Json (JArr (map (\<lambda>(k, x). JStr k) ms)))
      | Json (JStr s) \<Rightarrow> Inr (Json (JArr (map (\<lambda>c. JStr [c]) s)))
      | Json other \<Rightarrow> Inl TypeError)"

text \<open>
  Modelled from the spec: \<open>OutputPlugin.get_files(codebase, **kwargs)\<close> returns
  \<open>map(serializer, resources)\<close>, one record per resource that the options keep: a lazy
  map object on Python 3, a list on Python 2 (where \<open>map\<close> is eager, so a failing
  record raises at once).
\<close>

definition get_files :: "bool \<Rightarrow> 'r codebase \<Rightarrow> kwargs \<Rightarrow> (error + pyval) \<times> 'r codebase" where
  "get_files p3 cb kw =
     (let items = map (to_dict cb kw) (filter (selected cb kw) (resources cb)) in
      (if p3 then Inr (MapObject items) else py_list (MapObject items),
       cb\<lparr>calls := calls cb @ [GetFiles kw]\<rparr>))"

subsection \<open>write\_results\<close>

text \<open>The loop of lines 149 and 150: one \<open>s.write\<close> per attribute, in order.\<close>

fun write_attributes :: "stream \<Rightarrow> json odict \<Rightarrow> error option \<times> stream" where
  "write_attributes s [] = (None, s)"
| "write_attributes s ((attribute_key, attribute_value) # rest) =
     (case stream_write s attribute_key (Json attribute_value) of
        (Some err, s') \<Rightarrow> (Some err, s')
      | (None, s') \<Rightarrow> write_attributes s' rest)"

text \<open>
  The body of the \<open>with\<close> block (lines 142 to 158). It returns the error raised, if any,
  with the stream and the codebase as they are at that point.
\<close>

definition write_results_body ::
  "bool \<Rightarrow> 'r codebase \<Rightarrow> stream \<Rightarrow> kwargs \<Rightarrow> error option \<times> stream \<times> 'r codebase" where
  "write_results_body p3 codebase s kw =
     (let cb1 = add_files_count_to_current_header codebase;
          (codebase_headers, cb2) = get_headers cb1
      in case stream_write s ''headers'' (Json (JObj codebase_headers)) of
        (Some err, s1) \<Rightarrow> (Some err, s1, cb2)
      | (None, s1) \<Rightarrow>
          (case (case attributes cb2 of
                   None \<Rightarrow> (None, s1)
                 | Some a \<Rightarrow> write_attributes s1 a) of
             (Some err, s2) \<Rightarrow> (Some err, s2, cb2)
           | (None, s2) \<Rightarrow>
               (case get_files p3 cb2 kw of
                  (Inl err, cb3) \<Rightarrow> (Some err, s2, cb3)
                | (Inr codebase_files, cb3) \<Rightarrow>
                    (case (if p3 then py_list codebase_files else Inr codebase_files) of
                       Inl err \<Rightarrow> (Some err, s2, cb3)
                     | Inr files \<Rightarrow>
                         (case stream_write s2 ''files'' files of
                            (r, s3) \<Rightarrow> (r, s3, cb3))))))"

text \<open>
  Lines 134 to 138: a path string is opened and the file object is the stream's to
  close (\<open>close_fd = True\<close>); a sink handed in is used as it is (\<open>close_fd = False\<close>).
\<close>

definition resolve_output :: "env \<Rightarrow> output_descriptor \<Rightarrow> error + sink \<times> bool" where
  "resolve_output e output_file =
     (case output_file of
        Path p \<Rightarrow>
          (case py_open e p (mode (py3 e)) of
             Inl err \<Rightarrow> Inl err
           | Inr f \<Rightarrow> Inr (f, True))
      | OpenSink f \<Rightarrow> Inr (f, False))"

text \<open>
  \<open>write_results(codebase, output_file, pretty, **kwargs)\<close>. The result is the error
  raised (\<open>None\<close> when the call returns), the stream after the \<open>with\<close> block was left
  (\<open>None\<close> when \<open>open\<close> raised, before any stream existed) and the codebase.
\<close>

definition write_results ::
  "env \<Rightarrow> 'r codebase \<Rightarrow> output_descriptor \<Rightarrow> bool \<Rightarrow> kwargs
     \<Rightarrow> error option \<times> stream option \<times> 'r codebase" where
  "write_results e codebase output_file pretty_flag kw =
     (let (ind, pr) = (if pretty_flag then (Some 2, True) else (None, False)) in
      case resolve_output e output_file of
        Inl err \<Rightarrow> (Some err, None, codebase)
      | Inr (f, close_fd) \<Rightarrow>
          (case write_results_body (py3 e) codebase (Stream f close_fd ind pr) kw of
             (r, s, cb') \<Rightarrow> (r, Some (stream_exit s), cb')))"

subsection \<open>get\_results\<close>

text \<open>The tracing flag of the module (line 47).\<close>

definition TRACE :: bool where
  "TRACE = False"

text \<open>A map object that was drained yields nothing more.\<close>

definition exhausted :: "pyval \<Rightarrow> pyval" where
  "exhausted v = (case v of MapObject items \<Rightarrow> MapObject [] | Json j \<Rightarrow> Json j)"

text \<open>
  \<open>get_results(codebase, as_list, **kwargs)\<close>: the ordered mapping, or the error raised,
  and the codebase. Under \<open>TRACE\<close> the files are drained once more for the log, which
  leaves a map object stored in the mapping exhausted.
\<close>

definition get_results ::
  "bool \<Rightarrow> 'r codebase \<Rightarrow> bool \<Rightarrow> kwargs \<Rightarrow> (error + pyval odict) \<times> 'r codebase" where
  "get_results p3 codebase as_list kw =
     (let cb1 = add_files_count_to_current_header codebase;
          (codebase_headers, cb2) = get_headers cb1;
          results0 = [(''headers'', Json (JObj codebase_headers))];
          results1 = (case attributes cb2 of
                        None \<Rightarrow> results0
                      | Some a \<Rightarrow> dict_update results0 (map (\<lambda>(k, v). (k, Json v)) a))
      in case get_files p3 cb2 kw of
        (Inl err, cb3) \<Rightarrow> (Inl err, cb3)
      | (Inr files0, cb3) \<Rightarrow>
          (case (if as_list then py_list files0 else Inr files0) of
             Inl err \<Rightarrow> (Inl err, cb3)
           | Inr files \<Rightarrow>
               (let results = dict_set results1 ''files'' files in
                if TRACE
                then (case py_list files of
                        Inl err \<Rightarrow> (Inl err, cb3)
                      | Inr drained \<Rightarrow> (Inr (dict_set results ''files'' (exhausted files)), cb3))
                else (Inr results, cb3))))"

subsection \<open>Vocabulary of the statements\<close>

text \<open>The attribute items a codebase yields: none when it has no attributes object.\<close>

definition attribute_items :: "'r codebase \<Rightarrow> json odict" where
  "attribute_items cb = (case attributes cb of None \<Rightarrow> [] | Some a \<Rightarrow> a)"

text \<open>The items of the file-record sequence that \<open>get_files\<close> builds.\<close>

definition file_records :: "'r codebase \<Rightarrow> kwargs \<Rightarrow> (error + json) list" where
  "file_records cb kw = map (to_dict cb kw) (filter (selected cb kw) (resources cb))"

text \<open>The header mapping once the file count is stored in it.\<close>

definition injected_headers :: "'r codebase \<Rightarrow> json odict" where
  "injected_headers cb =
     dict_set (headers cb) ''files_count'' (JInt (int (length (resources cb))))"

text \<open>The stream after one entry was written: what a \<open>write\<close> of a JSON value does.\<close>

definition stream_put :: "stream \<Rightarrow> string \<times> json \<Rightarrow> stream" where
  "stream_put s kv =
     s\<lparr>st_log := st_log s @ [(fst kv, Json (snd kv))],
       st_fd := sink_write (st_fd s)
                  ((if st_comma s then '','' else []) @ newline_indent (st_indent s) 1
                    @ encode_string (fst kv) @ '':'' @ encode (st_indent s) 1 (snd kv)),
       st_comma := True\<rparr>"

text \<open>The text of a run of entries, after a comma when entries stand before it.\<close>

definition entries_text :: "bool \<Rightarrow> nat option \<Rightarrow> json odict \<Rightarrow> string" where
  "entries_text c ind es =
     (if es = [] then [] else (if c then '','' else []) @ encode_members ind 1 es)"

text \<open>The codebase after the three collaborator calls of either operation.\<close>

definition after_call :: "'r codebase \<Rightarrow> kwargs \<Rightarrow> 'r codebase" where
  "after_call cb kw =
     cb\<lparr>headers := injected_headers cb,
        calls := calls cb @ [AddFilesCount, GetHeaders, GetFiles kw]\<rparr>"

text \<open>The entries written before the files: the headers, then the attributes.\<close>

definition header_and_attributes :: "'r codebase \<Rightarrow> json odict" where
  "header_and_attributes cb = (''headers'', JObj (injected_headers cb)) # attribute_items cb"

text \<open>How often the file count was injected, read off the trace of collaborator calls.\<close>

definition injections :: "'r codebase \<Rightarrow> nat" where
  "injections cb = count_list (calls cb) AddFilesCount"

text \<open>The keys of the \<open>write\<close> calls made on a stream, in order.\<close>

definition written_keys :: "stream \<Rightarrow> string list" where
  "written_keys s = map fst (st_log s)"

text \<open>The entries of a JSON object as the values handed to \<open>write\<close>.\<close>

definition as_writes :: "json odict \<Rightarrow> (string \<times> pyval) list" where
  "as_writes es = map (\<lambda>(k, v). (k, Json v)) es"

definition is_lazy :: "pyval \<Rightarrow> bool" where
  "is_lazy v = (case v of MapObject items \<Rightarrow> True | Json j \<Rightarrow> False)"

text \<open>The indentation \<open>write_results\<close> asks for (lines 129 to 132).\<close>

definition indent_of :: "bool \<Rightarrow> nat option" where
  "indent_of pretty_flag = (if pretty_flag then Some 2 else None)"

text \<open>The stream that wrote the entries \<open>es\<close> to the sink \<open>f\<close> and was left.\<close>

definition closed_stream :: "sink \<Rightarrow> bool \<Rightarrow> bool \<Rightarrow> json odict \<Rightarrow> stream" where
  "closed_stream f cfd pretty_flag es =
     stream_exit (foldl stream_put (Stream f cfd (indent_of pretty_flag) pretty_flag) es)"


text \<open>The keys of the mapping \<open>get_results\<close> returned; none when it raised.\<close>

definition result_keys :: "(error + pyval odict) \<times> 'r codebase \<Rightarrow> string list" where
  "result_keys res = (case fst res of Inl err \<Rightarrow> [] | Inr results \<Rightarrow> keys results)"

text \<open>Calling an operation \<open>n\<close> times in a row on the same codebase object.\<close>

fun write_results_times ::
  "nat \<Rightarrow> env \<Rightarrow> 'r codebase \<Rightarrow> output_descriptor \<Rightarrow> bool \<Rightarrow> kwargs \<Rightarrow> 'r codebase" where
  "write_results_times 0 e cb out pf kw = cb"
| "write_results_times (Suc n) e cb out pf kw =
     write_results_times n e (snd (snd (write_results e cb out pf kw))) out pf kw"

fun get_results_times :: "nat \<Rightarrow> bool \<Rightarrow> 'r codebase \<Rightarrow> bool \<Rightarrow> kwargs \<Rightarrow> 'r codebase" where
  "get_results_times 0 p3 cb as_list kw = cb"
| "get_results_times (Suc n) p3 cb as_list kw =
     get_results_times n p3 (snd (get_results p3 cb as_list kw)) as_list kw"

text \<open>
  Deleting the whitespace that stands outside string literals. JSON allows whitespace
  between tokens only, and a parser skips it: two texts that agree once it is deleted
  are the same sequence of tokens, so they parse to the same document.
\<close>

datatype lex_state = Outside | Inside | Escaped

definition is_space :: "char \<Rightarrow> bool" where
  "is_space c = (c = CHR '' '' \<or> c = CHR 0x0A \<or> c = CHR 0x0D \<or> c = CHR 0x09)"

fun unspace :: "lex_state \<Rightarrow> string \<Rightarrow> string" where
  "unspace q [] = []"
| "unspace Outside (c # cs) =
     (if is_space c then unspace Outside cs
      else c # unspace (if c = CHR 0x22 then Inside else Outside) cs)"
| "unspace Inside (c # cs) =
     c # unspace (if c = CHR 0x5C then Escaped else if c = CHR 0x22 then Outside else Inside) cs"
| "unspace Escaped (c # cs) = c # unspace Inside cs"

text \<open>
  What a call of \<open>write_results\<close> that got its sink raises and writes: it fails exactly
  when draining the file records fails, and then the files entry is never written.
\<close>

definition outcome :: "'r codebase \<Rightarrow> kwargs \<Rightarrow> error option" where
  "outcome cb kw =
     (case drain (file_records cb kw) of Inl err \<Rightarrow> Some err | Inr recs \<Rightarrow> None)"

definition entries_written :: "'r codebase \<Rightarrow> kwargs \<Rightarrow> json odict" where
  "entries_written cb kw =
     header_and_attributes cb
       @ (case drain (file_records cb kw) of
            Inl err \<Rightarrow> []
          | Inr recs \<Rightarrow> [(''files'', JArr recs)])"

text \<open>
  Parsing a JSON text, to say what document a sink holds: a lexer, an automaton that
  reads the text character by character, and a recursive-descent parser over the
  tokens. Whitespace is skipped between tokens only; strings are unescaped; a control
  character inside a string, a number or word that is not closed, a trailing comma
  and text after the document are refused. Numbers are the integers.
\<close>

datatype token =
    LBrace | RBrace | LBracket | RBracket | Comma | Colon
  | TStr string | TInt int | TTrue | TFalse | TNull

definition is_digit :: "char \<Rightarrow> bool" where
  "is_digit c = (48 \<le> (of_char c :: nat) \<and> (of_char c :: nat) \<le> 57)"

definition is_letter :: "char \<Rightarrow> bool" where
  "is_letter c = (97 \<le> (of_char c :: nat) \<and> (of_char c :: nat) \<le> 122)"

definition digit_value :: "char \<Rightarrow> nat" where
  "digit_value c = of_char c - 48"

definition hex_value :: "char \<Rightarrow> nat option" where
  "hex_value c =
     (if is_digit c then Some (of_char c - 48)
      else if 97 \<le> (of_char c :: nat) \<and> (of_char c :: nat) \<le> 102 then Some (of_char c - 87)
      else if 65 \<le> (of_char c :: nat) \<and> (of_char c :: nat) \<le> 70 then Some (of_char c - 55)
      else None)"

definition simple_escape :: "char \<Rightarrow> char option" where
  "simple_escape c =
     (if c = CHR 0x22 then Some (CHR 0x22)
      else if c = CHR 0x5C then Some (CHR 0x5C)
      else if c = CHR ''/'' then Some (CHR ''/'')
      else if c = CHR ''b'' then Some (CHR 0x08)
      else if c = CHR ''f'' then Some (CHR 0x0C)
      else if c = CHR ''n'' then Some (CHR 0x0A)
      else if c = CHR ''r'' then Some (CHR 0x0D)
      else if c = CHR ''t'' then Some (CHR 0x09)
      else None)"

text \<open>
  The states of the lexer: between tokens, inside a string (the characters read so
  far, last first), after a backslash, inside a \<open>\u\<close> escape (digits still to come and
  the value so far), inside a number (its sign and the value of the digits so far)
  and inside a word.
\<close>

datatype lexing =
    Start
  | InStr string
  | InEsc string
  | InHex string nat nat
  | InNum bool "nat option"
  | InWord string

definition number_token :: "bool \<Rightarrow> nat option \<Rightarrow> token option" where
  "number_token negative v =
     (case v of None \<Rightarrow> None
      | Some a \<Rightarrow> Some (TInt (if negative then - int a else int a)))"

definition word_token :: "string \<Rightarrow> token option" where
  "word_token w =
     (if rev w = ''true'' then Some TTrue
      else if rev w = ''false'' then Some TFalse
      else if rev w = ''null'' then Some TNull
      else None)"

definition start_step :: "char \<Rightarrow> (token list \<times> lexing) option" where
  "start_step c =
     (if is_space c then Some ([], Start)
      else if c = CHR ''{'' then Some ([LBrace], Start)
      else if c = CHR ''}'' then Some ([RBrace], Start)
      else if c = CHR ''['' then Some ([LBracket], Start)
      else if c = CHR '']'' then Some ([RBracket], Start)
      else if c = CHR '','' then Some ([Comma], Start)
      else if c = CHR '':'' then Some ([Colon], Start)
      else if c = CHR 0x22 then Some ([], InStr [])
      else if c = CHR ''-'' then Some ([], InNum True None)
      else if is_digit c then Some ([], InNum False (Some (digit_value c)))
      else if is_letter c then Some ([], InWord [c])
      else None)"

definition after_token :: "token option \<Rightarrow> char \<Rightarrow> (token list \<times> lexing) option" where
  "after_token t c =
     (case t of None \<Rightarrow> None
      | Some tok \<Rightarrow>
          (case start_step c of None \<Rightarrow> None | Some (ts, q) \<Rightarrow> Some (tok # ts, q)))"

fun step :: "lexing \<Rightarrow> char \<Rightarrow> (token list \<times> lexing) option" where
  "step Start c = start_step c"
| "step (InStr acc) c =
     (if c = CHR 0x22 then Some ([TStr (rev acc)], Start)
      else if c = CHR 0x5C then Some ([], InEsc acc)
      else if (of_char c :: nat) < 32 then None
      else Some ([], InStr (c # acc)))"
| "step (InEsc acc) c =
     (if c = CHR ''u'' then Some ([], InHex acc 4 0)
      else (case simple_escape c of None \<Rightarrow> None | Some d \<Rightarrow> Some ([], InStr (d # acc))))"
| "step (InHex acc n v) c =
     (case hex_value c of
        None \<Rightarrow> None
      | Some h \<Rightarrow>
          (if n \<le> 1
           then (if 16 * v + h < 256 then Some ([], InStr (char_of (16 * v + h) # acc)) else None)
           else Some ([], InHex acc (n - 1) (16 * v + h))))"
| "step (InNum negative v) c =
     (if is_digit c
      then Some ([], InNum negative
                       (Some (10 * (case v of None \<Rightarrow> 0 | Some a \<Rightarrow> a) + digit_value c)))
      else after_token (number_token negative v) c)"
| "step (InWord w) c =
     (if is_letter c then Some ([], InWord (c # w)) else after_token (word_token w) c)"

fun finish :: "lexing \<Rightarrow> token list option" where
  "finish Start = Some []"
| "finish (InNum negative v) = map_option (\<lambda>t. [t]) (number_token negative v)"
| "finish (InWord w) = map_option (\<lambda>t. [t]) (word_token w)"
| "finish q = None"

text \<open>The tokens of a text, or \<open>None\<close> when it is not a sequence of JSON tokens.\<close>

definition prepend :: "token list \<Rightarrow> token list option \<Rightarrow> token list option" where
  "prepend ts r = (case r of None \<Rightarrow> None | Some us \<Rightarrow> Some (ts @ us))"

fun tokenize :: "lexing \<Rightarrow> string \<Rightarrow> token list option" where
  "tokenize q [] = finish q"
| "tokenize q (c # cs) =
     (case step q c of
        None \<Rightarrow> None
      | Some (ts, q') \<Rightarrow> prepend ts (tokenize q' cs))"

text \<open>A rest of the text that cannot continue a number or a word.\<close>

definition boundary :: "string \<Rightarrow> bool" where
  "boundary rest = (case rest of [] \<Rightarrow> True | c # cs \<Rightarrow> \<not> is_digit c \<and> \<not> is_letter c)"

text \<open>
  The parser takes fuel, one unit per call; a call never needs more than there are
  tokens, which is what \<open>parse_json\<close> gives it.
\<close>

fun parse_value :: "nat \<Rightarrow> token list \<Rightarrow> (json \<times> token list) option"
  and parse_items :: "nat \<Rightarrow> token list \<Rightarrow> (json list \<times> token list) option"
  and parse_members :: "nat \<Rightarrow> token list \<Rightarrow> ((string \<times> json) list \<times> token list) option"
where
  "parse_value 0 ts = None"
| "parse_value (Suc n) [] = None"
| "parse_value (Suc n) (t # ts) =
     (case t of
        TNull \<Rightarrow> Some (JNull, ts)
      | TTrue \<Rightarrow> Some (JBool True, ts)
      | TFalse \<Rightarrow> Some (JBool False, ts)
      | TInt i \<Rightarrow> Some (JInt i, ts)
      | TStr s \<Rightarrow> Some (JStr s, ts)
      | LBracket \<Rightarrow>
          (case ts of
             RBracket # ts' \<Rightarrow> Some (JArr [], ts')
           | _ \<Rightarrow> map_option (\<lambda>(xs, ts'). (JArr xs, ts')) (parse_items n ts))
      | LBrace \<Rightarrow>
          (case ts of
             RBrace # ts' \<Rightarrow> Some (JObj [], ts')
           | _ \<Rightarrow> map_option (\<lambda>(ms, ts'). (JObj ms, ts')) (parse_members n ts))
      | _ \<Rightarrow> None)"
| "parse_items 0 ts = None"
| "parse_items (Suc n) ts =
     (case parse_value n ts of
        None \<Rightarrow> None
      | Some (x, ts') \<Rightarrow>
          (case ts' of
             Comma # ts'' \<Rightarrow> map_option (\<lambda>(xs, ts3). (x # xs, ts3)) (parse_items n ts'')
           | RBracket # ts'' \<Rightarrow> Some ([x], ts'')
           | _ \<Rightarrow> None))"
| "parse_members 0 ts = None"
| "parse_members (Suc n) ts =
     (case ts of
        TStr k # Colon # ts' \<Rightarrow>
          (case parse_value n ts' of
             None \<Rightarrow> None
           | Some (v, ts'') \<Rightarrow>
               (case ts'' of
                  Comma # ts3 \<Rightarrow> map_option (\<lambda>(ms, ts4). ((k, v) # ms, ts4)) (parse_members n ts3)
                | RBrace # ts3 \<Rightarrow> Some ([(k, v)], ts3)
                | _ \<Rightarrow> None))
      | _ \<Rightarrow> None)"

definition parse_json :: "string \<Rightarrow> json option" where
  "parse_json s =
     (case tokenize Start s of
        None \<Rightarrow> None
      | Some ts \<Rightarrow>
          (case parse_value (length ts) ts of
             Some (j, []) \<Rightarrow> Some j
           | _ \<Rightarrow> None))"

text \<open>The tokens of a document, whatever its layout.\<close>

fun tokens :: "json \<Rightarrow> token list"
  and tokens_items :: "json list \<Rightarrow> token list"
  and tokens_members :: "(string \<times> json) list \<Rightarrow> token list"
where
  "tokens JNull = [TNull]"
| "tokens (JBool b) = [if b then TTrue else TFalse]"
| "tokens (JInt i) = [TInt i]"
| "tokens (JStr s) = [TStr s]"
| "tokens (JArr xs) = LBracket # tokens_items xs @ [RBracket]"
| "tokens (JObj ms) = LBrace # tokens_members ms @ [RBrace]"
| "tokens_items [] = []"
| "tokens_items (x # xs) = tokens x @ (if xs = [] then [] else Comma # tokens_items xs)"
| "tokens_members [] = []"
| "tokens_members ((k, v) # ms) =
     TStr k # Colon # tokens v @ (if ms = [] then [] else Comma # tokens_members ms)"

text \<open>Reading one more digit of a number.\<close>

definition more_digit :: "nat option \<Rightarrow> char \<Rightarrow> nat option" where
  "more_digit v c = Some (10 * (case v of None \<Rightarrow> 0 | Some a \<Rightarrow> a) + digit_value c)"

subsection \<open>Sample inputs\<close>

text \<open>
  A runtime where only \<open>scan.json\<close> can be opened, and codebases whose resources are
  paths: the scenario of the specification, one with attributes, one with no files,
  one whose second record raises, one with an attribute named \<open>files\<close>, and one
  whose options can leave the root out of the records (\<open>strip_root\<close>).
\<close>

definition sample_env :: env where
  "sample_env = \<lparr>py3 = True, openable = (\<lambda>p. p = ''scan.json'')\<rparr>"

definition path_record :: "kwargs \<Rightarrow> string \<Rightarrow> error + json" where
  "path_record kw p = Inr (JObj [(''path'', JStr p)])"

definition sample_codebase :: "string codebase" where
  "sample_codebase =
     \<lparr>headers = [(''tool_version'', JStr ''1.0'')], attributes = None,
      resources = [''a.txt'', ''b.txt''], selected = (\<lambda>kw p. True),
      to_dict = path_record, calls = []\<rparr>"

definition summary_codebase :: "string codebase" where
  "summary_codebase =
     sample_codebase\<lparr>attributes :=
       Some [(''summary'', JObj [(''holders'', JArr [])]), (''license_clarity_score'', JInt 90)]\<rparr>"

definition empty_codebase :: "string codebase" where
  "empty_codebase = sample_codebase\<lparr>resources := []\<rparr>"

definition failing_codebase :: "string codebase" where
  "failing_codebase =
     sample_codebase\<lparr>to_dict :=
       (\<lambda>kw p. if p = ''b.txt'' then Inl (CollaboratorError ''unreadable'') else path_record kw p)\<rparr>"

definition clashing_codebase :: "string codebase" where
  "clashing_codebase =
     sample_codebase\<lparr>attributes := Some [(''files'', JInt 1), (''summary'', JInt 2)]\<rparr>"



definition fresh_sink :: sink where
  "fresh_sink = \<lparr>written = [], close_calls = 0\<rparr>"

section \<open>Properties\<close>

subsection \<open>Ordered dictionaries\<close>


lemma dict_set_twice: "dict_set (dict_set d k v) k v = dict_set d k v"
  by (induction d) auto

lemma dict_set_new: "k \<notin> set (keys d) \<Longrightarrow> dict_set d k v = d @ [(k, v)]"
  by (induction d) (auto simp: keys_def)

lemma dict_update_new:
  "distinct (keys e) \<Longrightarrow> set (keys d) \<inter> set (keys e) = {} \<Longrightarrow> dict_update d e = d @ e"
proof (induction e arbitrary: d)
  case Nil
  show ?case by simp
next
  case (Cons kv e)
  obtain k v where kv: "kv = (k, v)" by (cases kv)
  from Cons.prems have new: "k \<notin> set (keys d)" and rest: "distinct (keys e)"
    and apart: "set (keys (d @ [(k, v)])) \<inter> set (keys e) = {}"
    by (auto simp: kv keys_def)
  show ?case
    by (simp add: kv dict_set_new [OF new] Cons.IH [OF rest apart])
qed

lemma drain_length: "drain items = Inr xs \<Longrightarrow> length xs = length items"
proof (induction items arbitrary: xs)
  case Nil
  then show ?case by simp
next
  case (Cons item items)
  then show ?case
    by (cases item) (auto split: sum.splits)
qed

subsection \<open>The stream writes the object it is given, entry by entry\<close>

lemma stream_write_Json: "stream_write s k (Json v) = (None, stream_put s (k, v))"
  by (simp add: stream_write_def stream_put_def encode_value_def)

lemma write_attributes_eq: "write_attributes s a = (None, foldl stream_put s a)"
  by (induction a arbitrary: s) (auto simp: stream_write_Json)

lemma py_list_MapObject:
  "py_list (MapObject items) =
     (case drain items of Inl err \<Rightarrow> Inl err | Inr xs \<Rightarrow> Inr (Json (JArr xs)))"
  by (simp add: py_list_def)

lemma py_list_JArr: "py_list (Json (JArr xs)) = Inr (Json (JArr xs))"
  by (simp add: py_list_def)

lemma foldl_stream_put_fields:
  "st_log (foldl stream_put s es) = st_log s @ as_writes es"
  "st_indent (foldl stream_put s es) = st_indent s"
  "st_close_fd (foldl stream_put s es) = st_close_fd s"
  "st_pretty (foldl stream_put s es) = st_pretty s"
  "st_comma (foldl stream_put s es) = (st_comma s \<or> es \<noteq> [])"
  by (induction es arbitrary: s) (auto simp: stream_put_def as_writes_def)

lemma foldl_stream_put_fd:
  "st_fd (foldl stream_put s es) =
     sink_write (st_fd s) (entries_text (st_comma s) (st_indent s) es)"
proof (induction es arbitrary: s)
  case Nil
  show ?case by (simp add: entries_text_def sink_write_def)
next
  case (Cons kv es)
  obtain k v where kv: "kv = (k, v)" by (cases kv)
  show ?case
    by (simp add: Cons.IH kv) (simp add: stream_put_def entries_text_def sink_write_def)
qed

lemma closed_stream_text:
  "written (st_fd (closed_stream f cfd pf es)) = written f @ encode (indent_of pf) 0 (JObj es)"
  by (simp add: closed_stream_def stream_exit_def Let_def foldl_stream_put_fields
        foldl_stream_put_fd)
     (simp add: Stream_def sink_write_def sink_close_def entries_text_def newline_indent_def)

lemma closed_stream_closes:
  "close_calls (st_fd (closed_stream f cfd pf es)) =
     (if cfd then Suc (close_calls f) else close_calls f)"
  by (simp add: closed_stream_def stream_exit_def Let_def foldl_stream_put_fields
        foldl_stream_put_fd)
     (simp add: Stream_def sink_write_def sink_close_def)

lemma closed_stream_log: "st_log (closed_stream f cfd pf es) = as_writes es"
  by (simp add: closed_stream_def stream_exit_def Let_def foldl_stream_put_fields)
     (simp add: Stream_def)

subsection \<open>What the two operations compute\<close>

lemma write_results_body_eq:
  "write_results_body p3 cb s kw =
     (case drain (file_records cb kw) of
        Inl err \<Rightarrow> (Some err, foldl stream_put s (header_and_attributes cb), after_call cb kw)
      | Inr recs \<Rightarrow>
          (None, foldl stream_put s (header_and_attributes cb @ [(''files'', JArr recs)]),
           after_call cb kw))"
  by (cases "attributes cb"; cases "drain (map (to_dict cb kw) (filter (selected cb kw) (resources cb)))"; cases p3)
     (simp_all add: write_results_body_def add_files_count_to_current_header_def get_headers_def
       get_files_def stream_write_Json write_attributes_eq py_list_MapObject py_list_JArr
       injected_headers_def attribute_items_def file_records_def after_call_def
       header_and_attributes_def)

lemma write_results_eq:
  "write_results e cb out pf kw =
     (case resolve_output e out of
        Inl err \<Rightarrow> (Some err, None, cb)
      | Inr (f, cfd) \<Rightarrow>
          (case drain (file_records cb kw) of
             Inl err \<Rightarrow>
               (Some err, Some (closed_stream f cfd pf (header_and_attributes cb)),
                after_call cb kw)
           | Inr recs \<Rightarrow>
               (None,
                Some (closed_stream f cfd pf (header_and_attributes cb @ [(''files'', JArr recs)])),
                after_call cb kw)))"
  by (simp add: write_results_def write_results_body_eq closed_stream_def indent_of_def
      split: sum.splits prod.splits)

lemma get_results_eq:
  "get_results p3 cb as_list kw =
     (case (if p3 \<and> \<not> as_list then Inr (MapObject (file_records cb kw))
            else py_list (MapObject (file_records cb kw))) of
        Inl err \<Rightarrow> (Inl err, after_call cb kw)
      | Inr files \<Rightarrow>
          (Inr (dict_set (dict_update [(''headers'', Json (JObj (injected_headers cb)))]
                            (as_writes (attribute_items cb)))
                  ''files'' files),
           after_call cb kw))"
  by (cases "attributes cb"; cases "drain (map (to_dict cb kw) (filter (selected cb kw) (resources cb)))"; cases p3;
      cases as_list)
     (simp_all add: get_results_def add_files_count_to_current_header_def get_headers_def
       get_files_def py_list_MapObject py_list_JArr TRACE_def as_writes_def
       injected_headers_def attribute_items_def file_records_def after_call_def)

lemma after_call_fields:
  "injected_headers (after_call cb kw) = injected_headers cb"
  "attribute_items (after_call cb kw) = attribute_items cb"
  "file_records (after_call cb kw) kw' = file_records cb kw'"
  "header_and_attributes (after_call cb kw) = header_and_attributes cb"
  "attributes (after_call cb kw) = attributes cb"
  "resources (after_call cb kw) = resources cb"
  "selected (after_call cb kw) = selected cb"
  "to_dict (after_call cb kw) = to_dict cb"
  "headers (after_call cb kw) = injected_headers cb"
  "injections (after_call cb kw) = Suc (injections cb)"
  by (simp_all add: after_call_def injected_headers_def attribute_items_def file_records_def
        header_and_attributes_def injections_def dict_set_twice)

lemma write_results_resolved:
  assumes "resolve_output e out = Inr (f, cfd)"
  shows "write_results e cb out pf kw =
           (outcome cb kw, Some (closed_stream f cfd pf (entries_written cb kw)), after_call cb kw)"
proof (cases "drain (file_records cb kw)")
  case (Inl err)
  with assms show ?thesis
    by (simp add: write_results_eq outcome_def entries_written_def)
next
  case (Inr recs)
  with assms show ?thesis
    by (simp add: write_results_eq outcome_def entries_written_def)
qed

lemma write_results_unresolved:
  assumes "resolve_output e out = Inl err"
  shows "write_results e cb out pf kw = (Some err, None, cb)"
  using assms by (simp add: write_results_eq)

lemma write_results_stream:
  assumes "write_results e cb out pf kw = (r, Some s, cb')"
  shows "\<exists>f cfd. resolve_output e out = Inr (f, cfd) \<and> r = outcome cb kw
           \<and> s = closed_stream f cfd pf (entries_written cb kw) \<and> cb' = after_call cb kw"
proof (cases "resolve_output e out")
  case (Inl err)
  from write_results_unresolved [OF Inl, of cb pf kw] assms show ?thesis
    by simp
next
  case (Inr fc)
  obtain f cfd where fc: "fc = (f, cfd)" by (cases fc)
  from Inr fc have "resolve_output e out = Inr (f, cfd)" by simp
  from write_results_resolved [OF this, of cb pf kw] assms this show ?thesis
    by simp
qed

lemma as_writes_inject: "as_writes es = as_writes es' \<Longrightarrow> es = es'"
proof (induction es arbitrary: es')
  case Nil
  then show ?case by (simp add: as_writes_def)
next
  case (Cons kv es)
  from Cons.prems obtain kv' rest where es': "es' = kv' # rest"
    by (cases es') (simp_all add: as_writes_def)
  from Cons.prems have "kv = kv'" and "as_writes es = as_writes rest"
    by (simp_all add: es' as_writes_def case_prod_unfold prod_eq_iff)
  with Cons.IH show ?case
    by (simp add: es')
qed

lemma keys_as_writes: "map fst (as_writes es) = keys es"
  by (simp add: as_writes_def keys_def comp_def case_prod_unfold)

lemma keys_entries_written:
  "keys (entries_written cb kw) =
     ''headers'' # keys (attribute_items cb) @ (if outcome cb kw = None then [''files''] else [])"
  by (cases "drain (file_records cb kw)")
     (simp_all add: entries_written_def outcome_def keys_def header_and_attributes_def)

subsection \<open>The sample inputs\<close>

lemma sample_resolve:
  "resolve_output sample_env (Path ''scan.json'') = Inr (fresh_sink, True)"
  "resolve_output sample_env (Path ''/missing/scan.json'') = Inl IOError"
  "resolve_output e (OpenSink f) = Inr (f, False)"
  by (simp_all add: resolve_output_def py_open_def sample_env_def fresh_sink_def)

lemma sample_records:
  "drain (file_records sample_codebase kw) =
     Inr [JObj [(''path'', JStr ''a.txt'')], JObj [(''path'', JStr ''b.txt'')]]"
  "drain (file_records summary_codebase kw) =
     Inr [JObj [(''path'', JStr ''a.txt'')], JObj [(''path'', JStr ''b.txt'')]]"
  "drain (file_records clashing_codebase kw) =
     Inr [JObj [(''path'', JStr ''a.txt'')], JObj [(''path'', JStr ''b.txt'')]]"
  "drain (file_records empty_codebase kw) = Inr []"
  "drain (file_records failing_codebase kw) = Inl (CollaboratorError ''unreadable'')"
  by (simp_all add: file_records_def sample_codebase_def summary_codebase_def
        clashing_codebase_def empty_codebase_def failing_codebase_def path_record_def)

subsection \<open>The entries written and the codebase left behind\<close>


lemma last_entries_written:
  "drain (file_records cb kw) = Inr recs \<Longrightarrow>
     last (as_writes (entries_written cb kw)) = (''files'', Json (JArr recs))"
  by (simp add: entries_written_def as_writes_def)

lemma after_call_same:
  "outcome (after_call cb kw) kw' = outcome cb kw'"
  "entries_written (after_call cb kw) kw' = entries_written cb kw'"
  by (simp_all add: outcome_def entries_written_def after_call_fields)

subsection \<open>Whitespace outside string literals\<close>

lemma digit_char_plain:
  "\<not> is_space (digit_char d) \<and> digit_char d \<noteq> CHR 0x22 \<and> digit_char d \<noteq> CHR 0x5C"
proof -
  have "digit_char d \<in> set ''0123456789abcdef''"
    unfolding digit_char_def by (rule nth_mem) simp
  then show ?thesis
    by (auto simp: is_space_def)
qed

lemma unspace_plain:
  "\<forall>c \<in> set t. \<not> is_space c \<and> c \<noteq> CHR 0x22 \<Longrightarrow>
     unspace Outside (t @ rest) = t @ unspace Outside rest"
  by (induction t) auto

lemma str_nat_plain: "\<forall>c \<in> set (str_nat n). \<not> is_space c \<and> c \<noteq> CHR 0x22"
  by (induction n rule: str_nat.induct) (subst str_nat.simps, auto simp: digit_char_plain)

lemma str_int_plain: "\<forall>c \<in> set (str_int i). \<not> is_space c \<and> c \<noteq> CHR 0x22"
  using str_nat_plain by (auto simp: str_int_def is_space_def)

lemma unspace_escape_char:
  "unspace Inside (escape_char c @ rest) = escape_char c @ unspace Inside rest"
  using digit_char_plain [of "of_char c div 16"] digit_char_plain [of "of_char c mod 16"]
  by (simp add: escape_char_def)

lemma unspace_escaped:
  "unspace Inside (concat (map escape_char s) @ CHR 0x22 # rest)
     = concat (map escape_char s) @ CHR 0x22 # unspace Outside rest"
  by (induction s) (simp_all add: unspace_escape_char)

lemma unspace_encode_string:
  "unspace Outside (encode_string s @ rest) = encode_string s @ unspace Outside rest"
  by (simp add: encode_string_def is_space_def unspace_escaped)

lemma unspace_newline_indent:
  "unspace Outside (newline_indent ind lvl @ rest) = unspace Outside rest"
proof -
  have "unspace Outside (replicate m CHR '' '' @ rest) = unspace Outside rest" for m
    by (induction m) (simp_all add: is_space_def)
  then show ?thesis by (simp add: newline_indent_def is_space_def split: option.splits)
qed

lemma unspace_encode:
  "unspace Outside (encode ind lvl j @ rest) = encode None lvl j @ unspace Outside rest"
  "unspace Outside (encode_items ind lvl xs @ rest1)
     = encode_items None lvl xs @ unspace Outside rest1"
  "unspace Outside (encode_members ind lvl ms @ rest2)
     = encode_members None lvl ms @ unspace Outside rest2"
proof (induction ind lvl j and ind lvl xs and ind lvl ms arbitrary: rest and rest1 and rest2
    rule: encode_encode_items_encode_members.induct)
  case (1 ind lvl)
  show ?case by (simp add: is_space_def)
next
  case (2 ind lvl b)
  show ?case by (simp add: is_space_def)
next
  case (3 ind lvl i)
  show ?case using str_int_plain by (simp add: unspace_plain)
next
  case (4 ind lvl s)
  show ?case by (simp add: unspace_encode_string)
next
  case (5 ind lvl xs)
  have nl: "newline_indent None lvl = []" by (simp add: newline_indent_def)
  show ?case
    by (cases "xs = []") (simp_all add: "5.IH" is_space_def unspace_newline_indent nl)
next
  case (6 ind lvl ms)
  have nl: "newline_indent None lvl = []" by (simp add: newline_indent_def)
  show ?case
    by (cases "ms = []") (simp_all add: "6.IH" is_space_def unspace_newline_indent nl)
next
  case (7 ind lvl)
  show ?case by simp
next
  case (8 ind lvl x xs)
  have nl: "newline_indent None lvl = []" by (simp add: newline_indent_def)
  show ?case
    by (cases "xs = []") (simp_all add: "8.IH" is_space_def unspace_newline_indent nl)
next
  case (9 ind lvl)
  show ?case by simp
next
  case (10 ind lvl k v ms)
  have nl: "newline_indent None lvl = []" by (simp add: newline_indent_def)
  show ?case
    by (cases "ms = []")
       (simp_all add: "10.IH" is_space_def unspace_newline_indent unspace_encode_string nl)
qed

lemma unspace_document: "unspace Outside (encode ind 0 j) = encode None 0 j"
  using unspace_encode(1) [of ind 0 j "[]"] by simp

subsection \<open>Parsing what the encoder wrote\<close>

lemma prepend_simps [simp]:
  "prepend [] r = r"
  "prepend ts (prepend us r) = prepend (ts @ us) r"
  "prepend ts (Some us) = Some (ts @ us)"
  "prepend ts None = None"
  by (cases r; simp add: prepend_def)+

lemma lex_step:
  "step q c = Some (ts, q') \<Longrightarrow> tokenize q (c # cs) = prepend ts (tokenize q' cs)"
  by simp

lemma digit_char_small:
  assumes "d < 16"
  shows "hex_value (digit_char d) = Some d"
proof -
  from assms have "d = 0 \<or> d = 1 \<or> d = 2 \<or> d = 3 \<or> d = 4 \<or> d = 5 \<or> d = 6 \<or> d = 7
      \<or> d = 8 \<or> d = 9 \<or> d = 10 \<or> d = 11 \<or> d = 12 \<or> d = 13 \<or> d = 14 \<or> d = 15"
    by arith
  then show ?thesis
    by (elim disjE) (simp_all add: digit_char_def hex_value_def is_digit_def)
qed

lemma digit_char_decimal:
  assumes "d < 10"
  shows "is_digit (digit_char d)" and "digit_value (digit_char d) = d"
proof -
  from assms have "d = 0 \<or> d = 1 \<or> d = 2 \<or> d = 3 \<or> d = 4 \<or> d = 5 \<or> d = 6 \<or> d = 7
      \<or> d = 8 \<or> d = 9"
    by arith
  then show "is_digit (digit_char d)" and "digit_value (digit_char d) = d"
    by (elim disjE; simp add: digit_char_def digit_value_def is_digit_def)+
qed


lemma lex_Start_space: "is_space c \<Longrightarrow> tokenize Start (c # cs) = tokenize Start cs"
  by (simp add: start_step_def)

lemma lex_Start_punct:
  "tokenize Start (CHR ''{'' # cs) = prepend [LBrace] (tokenize Start cs)"
  "tokenize Start (CHR ''}'' # cs) = prepend [RBrace] (tokenize Start cs)"
  "tokenize Start (CHR ''['' # cs) = prepend [LBracket] (tokenize Start cs)"
  "tokenize Start (CHR '']'' # cs) = prepend [RBracket] (tokenize Start cs)"
  "tokenize Start (CHR '','' # cs) = prepend [Comma] (tokenize Start cs)"
  "tokenize Start (CHR '':'' # cs) = prepend [Colon] (tokenize Start cs)"
  by (simp_all add: start_step_def is_space_def)

lemma lex_newline_indent: "tokenize Start (newline_indent ind lvl @ rest) = tokenize Start rest"
proof -
  have "tokenize Start (replicate m CHR '' '' @ rest) = tokenize Start rest" for m
    by (induction m) (simp_all add: start_step_def is_space_def)
  then show ?thesis
    by (simp add: newline_indent_def start_step_def is_space_def split: option.splits)
qed

lemma lex_escape_char:
  "tokenize (InStr acc) (escape_char c @ rest) = tokenize (InStr (c # acc)) rest"
proof -
  have hi: "hex_value (digit_char (of_char c div 16)) = Some (of_char c div 16)"
    if "(of_char c :: nat) < 32"
    using that by (intro digit_char_small) simp
  have lo: "hex_value (digit_char (of_char c mod 16)) = Some (of_char c mod 16)"
    by (intro digit_char_small) simp
  have zero: "hex_value CHR ''0'' = Some 0"
    by (simp add: hex_value_def is_digit_def)
  have small: "(of_char c :: nat) < 256"
    by simp
  show ?thesis
    by (simp add: escape_char_def simple_escape_def zero hi lo)
qed

lemma lex_escaped:
  "tokenize (InStr acc) (concat (map escape_char s) @ CHR 0x22 # rest)
     = prepend [TStr (rev acc @ s)] (tokenize Start rest)"
  by (induction s arbitrary: acc) (simp_all add: lex_escape_char)

lemma lex_encode_string:
  "tokenize Start (encode_string s @ rest) = prepend [TStr s] (tokenize Start rest)"
  using lex_escaped [of "[]" s rest]
  by (simp add: encode_string_def start_step_def is_space_def)

lemma lex_InNum_end:
  assumes "boundary rest"
  shows "tokenize (InNum negative (Some a)) rest
           = prepend [TInt (if negative then - int a else int a)] (tokenize Start rest)"
proof (cases rest)
  case Nil
  then show ?thesis by (simp add: number_token_def)
next
  case (Cons c cs)
  with assms have "\<not> is_digit c" by (simp add: boundary_def)
  then show ?thesis
    by (cases "start_step c") (auto simp: Cons after_token_def number_token_def)
qed

lemma lex_InWord_end:
  assumes "boundary rest" and "word_token w = Some t"
  shows "tokenize (InWord w) rest = prepend [t] (tokenize Start rest)"
proof (cases rest)
  case Nil
  with assms(2) show ?thesis by simp
next
  case (Cons c cs)
  with assms(1) have "\<not> is_letter c" by (simp add: boundary_def)
  with assms(2) show ?thesis
    by (cases "start_step c") (auto simp: Cons after_token_def)
qed

lemma lex_literals:
  assumes "boundary rest"
  shows "tokenize Start (''null'' @ rest) = prepend [TNull] (tokenize Start rest)"
    and "tokenize Start (''true'' @ rest) = prepend [TTrue] (tokenize Start rest)"
    and "tokenize Start (''false'' @ rest) = prepend [TFalse] (tokenize Start rest)"
  using assms
  by (simp_all add: start_step_def is_space_def is_digit_def is_letter_def lex_InWord_end
        word_token_def)

lemma lex_InNum_digits:
  "\<forall>c \<in> set ds. is_digit c \<Longrightarrow>
     tokenize (InNum negative v) (ds @ rest) = tokenize (InNum negative (foldl more_digit v ds)) rest"
  by (induction ds arbitrary: v) (simp_all add: more_digit_def)

lemma str_nat_digits: "\<forall>c \<in> set (str_nat n). is_digit c"
proof (induction n rule: str_nat.induct)
  case (1 n)
  show ?case
  proof (cases "n < 10")
    case True
    then show ?thesis
      by (subst str_nat.simps) (simp add: digit_char_decimal)
  next
    case False
    have "n mod 10 < 10" by simp
    with False 1 show ?thesis
      by (subst str_nat.simps) (auto simp: digit_char_decimal)
  qed
qed

lemma more_digit_simps:
  "more_digit None c = Some (digit_value c)"
  "more_digit (Some a) c = Some (10 * a + digit_value c)"
  by (simp_all add: more_digit_def)

lemma str_nat_value: "foldl more_digit None (str_nat n) = Some n"
proof (induction n rule: str_nat.induct)
  case (1 n)
  show ?case
  proof (cases "n < 10")
    case True
    then show ?thesis
      by (subst str_nat.simps) (simp add: more_digit_simps digit_char_decimal)
  next
    case False
    have "n mod 10 < 10" by simp
    with False 1 show ?thesis
      by (subst str_nat.simps) (simp add: more_digit_simps digit_char_decimal)
  qed
qed

lemma str_nat_nonempty: "str_nat n \<noteq> []"
  by (subst str_nat.simps) simp

lemma lex_Start_digits:
  assumes "ds \<noteq> []" and "\<forall>c \<in> set ds. is_digit c"
  shows "tokenize Start (ds @ rest) = tokenize (InNum False None) (ds @ rest)"
proof -
  from assms obtain c cs where ds: "ds = c # cs" and c: "is_digit c"
    by (cases ds) auto
  from c have "\<not> is_space c" "c \<noteq> CHR ''{''" "c \<noteq> CHR ''}''" "c \<noteq> CHR ''[''" "c \<noteq> CHR '']''"
    "c \<noteq> CHR '',''" "c \<noteq> CHR '':''" "c \<noteq> CHR 0x22" "c \<noteq> CHR ''-''"
    by (auto simp: is_digit_def is_space_def)
  with c show ?thesis
    by (simp add: ds start_step_def)
qed

lemma lex_str_int:
  assumes "boundary rest"
  shows "tokenize Start (str_int i @ rest) = prepend [TInt i] (tokenize Start rest)"
proof (cases "i < 0")
  case True
  have "tokenize Start (str_int i @ rest) = tokenize (InNum True None) (str_nat (nat (- i)) @ rest)"
    using True by (simp add: str_int_def start_step_def is_space_def)
  also have "\<dots> = tokenize (InNum True (Some (nat (- i)))) rest"
    by (simp add: lex_InNum_digits [OF str_nat_digits] str_nat_value)
  also have "\<dots> = prepend [TInt i] (tokenize Start rest)"
    using True by (simp add: lex_InNum_end [OF assms])
  finally show ?thesis .
next
  case False
  have "tokenize Start (str_int i @ rest) = tokenize (InNum False None) (str_nat (nat i) @ rest)"
    using False by (simp add: str_int_def lex_Start_digits [OF str_nat_nonempty str_nat_digits])
  also have "\<dots> = tokenize (InNum False (Some (nat i))) rest"
    by (simp add: lex_InNum_digits [OF str_nat_digits] str_nat_value)
  also have "\<dots> = prepend [TInt i] (tokenize Start rest)"
    using False by (simp add: lex_InNum_end [OF assms])
  finally show ?thesis .
qed

lemma boundary_simps:
  "boundary []"
  "boundary (CHR '']'' # rest)"
  "boundary (CHR ''}'' # rest)"
  "boundary (CHR '','' # rest)"
  "boundary (CHR 0x0A # rest)"
  by (simp_all add: boundary_def is_digit_def is_letter_def)

lemma boundary_newline_indent:
  "boundary rest \<Longrightarrow> boundary (newline_indent ind lvl @ rest)"
  by (simp add: newline_indent_def boundary_simps split: option.splits)

lemma lex_encode:
  "boundary rest \<Longrightarrow>
     tokenize Start (encode ind lvl j @ rest) = prepend (tokens j) (tokenize Start rest)"
  "boundary rest1 \<Longrightarrow>
     tokenize Start (encode_items ind lvl xs @ rest1) = prepend (tokens_items xs) (tokenize Start rest1)"
  "boundary rest2 \<Longrightarrow>
     tokenize Start (encode_members ind lvl ms @ rest2) = prepend (tokens_members ms) (tokenize Start rest2)"
proof (induction ind lvl j and ind lvl xs and ind lvl ms arbitrary: rest and rest1 and rest2
    rule: encode_encode_items_encode_members.induct)
  case (1 ind lvl)
  then show ?case using lex_literals(1) by simp
next
  case (2 ind lvl b)
  then show ?case using lex_literals(2,3) by simp
next
  case (3 ind lvl i)
  then show ?case by (simp add: lex_str_int del: tokenize.simps)
next
  case (4 ind lvl s)
  show ?case by (simp add: lex_encode_string del: tokenize.simps)
next
  case (5 ind lvl xs)
  show ?case
  proof (cases "xs = []")
    case True
    then show ?thesis by (simp add: lex_Start_punct del: tokenize.simps)
  next
    case False
    have b: "boundary (newline_indent ind lvl @ CHR '']'' # rest)"
      by (intro boundary_newline_indent boundary_simps)
    from False show ?thesis
      by (simp add: lex_Start_punct "5.IH" [OF False b] lex_newline_indent del: tokenize.simps)
  qed
next
  case (6 ind lvl ms)
  show ?case
  proof (cases "ms = []")
    case True
    then show ?thesis by (simp add: lex_Start_punct del: tokenize.simps)
  next
    case False
    have b: "boundary (newline_indent ind lvl @ CHR ''}'' # rest)"
      by (intro boundary_newline_indent boundary_simps)
    from False show ?thesis
      by (simp add: lex_Start_punct "6.IH" [OF False b] lex_newline_indent del: tokenize.simps)
  qed
next
  case (7 ind lvl)
  show ?case by simp
next
  case (8 ind lvl x xs)
  show ?case
  proof (cases "xs = []")
    case True
    with 8 show ?thesis
      by (simp add: lex_newline_indent del: tokenize.simps)
  next
    case False
    have b: "boundary (CHR '','' # encode_items ind lvl xs @ rest1)"
      by (rule boundary_simps)
    from False show ?thesis
      by (simp add: lex_newline_indent "8.IH"(1) [OF b] lex_Start_punct
            "8.IH"(2) [OF False "8.prems"] del: tokenize.simps)
  qed
next
  case (9 ind lvl)
  show ?case by simp
next
  case (10 ind lvl k v ms)
  show ?case
  proof (cases "ms = []")
    case True
    with 10 show ?thesis
      by (simp add: lex_newline_indent lex_encode_string lex_Start_punct del: tokenize.simps)
  next
    case False
    have b: "boundary (CHR '','' # encode_members ind lvl ms @ rest2)"
      by (rule boundary_simps)
    from False show ?thesis
      by (simp add: lex_newline_indent lex_encode_string lex_Start_punct "10.IH"(1) [OF b]
            "10.IH"(2) [OF False "10.prems"] del: tokenize.simps)
  qed
qed

lemma lex_document: "tokenize Start (encode ind lvl j) = Some (tokens j)"
  using lex_encode(1) [of "[]" ind lvl j] by (simp add: boundary_simps)

lemma tokens_first:
  "\<exists>t ts. tokens j = t # ts \<and> t \<noteq> RBracket \<and> t \<noteq> RBrace \<and> t \<noteq> Comma \<and> t \<noteq> Colon"
  by (cases j) auto

lemma parse_tokens:
  "length (tokens j) \<le> n \<Longrightarrow> parse_value n (tokens j @ rest) = Some (j, rest)"
  "xs \<noteq> [] \<Longrightarrow> length (tokens_items xs) < n1 \<Longrightarrow>
     parse_items n1 (tokens_items xs @ RBracket # rest1) = Some (xs, rest1)"
  "ms \<noteq> [] \<Longrightarrow> length (tokens_members ms) < n2 \<Longrightarrow>
     parse_members n2 (tokens_members ms @ RBrace # rest2) = Some (ms, rest2)"
proof (induction j and xs and ms arbitrary: n rest and n1 rest1 and n2 rest2
    rule: tokens_tokens_items_tokens_members.induct)
  case 1
  then show ?case by (cases n) simp_all
next
  case (2 b)
  then show ?case by (cases n) simp_all
next
  case (3 i)
  then show ?case by (cases n) simp_all
next
  case (4 s)
  then show ?case by (cases n) simp_all
next
  case (5 xs)
  from "5.prems" obtain m where n: "n = Suc m" and m: "length (tokens_items xs) < m"
    by (cases n) auto
  show ?case
  proof (cases "xs = []")
    case True
    then show ?thesis by (simp add: n)
  next
    case False
    then obtain x xs' where xs: "xs = x # xs'" by (cases xs) auto
    from tokens_first [of x] obtain t ts where first: "tokens x = t # ts" "t \<noteq> RBracket"
      by blast
    have "parse_items m (tokens_items xs @ RBracket # rest) = Some (xs, rest)"
      by (rule "5.IH" [OF False m])
    with first show ?thesis
      by (cases t) (simp_all add: n xs)
  qed
next
  case (6 ms)
  from "6.prems" obtain m where n: "n = Suc m" and m: "length (tokens_members ms) < m"
    by (cases n) auto
  show ?case
  proof (cases "ms = []")
    case True
    then show ?thesis by (simp add: n)
  next
    case False
    then obtain k v ms' where ms: "ms = (k, v) # ms'" by (cases ms) auto
    have "parse_members m (tokens_members ms @ RBrace # rest) = Some (ms, rest)"
      by (rule "6.IH" [OF False m])
    then show ?thesis
      by (simp add: n ms)
  qed
next
  case 7
  then show ?case by simp
next
  case (8 x xs)
  from "8.prems" obtain m where n: "n1 = Suc m"
    by (cases n1) auto
  show ?case
  proof (cases "xs = []")
    case True
    with "8.prems" have "length (tokens x) \<le> m" by (simp add: n)
    from "8.IH"(1) [OF this] True show ?thesis
      by (simp add: n)
  next
    case False
    with "8.prems" have a: "length (tokens x) \<le> m" and b: "length (tokens_items xs) < m"
      using tokens_first [of x] by (auto simp: n)
    from "8.IH"(1) [OF a] "8.IH"(2) [OF False False b] False show ?thesis
      by (simp add: n)
  qed
next
  case 9
  then show ?case by simp
next
  case (10 k v ms)
  from "10.prems" obtain m where n: "n2 = Suc m"
    by (cases n2) auto
  show ?case
  proof (cases "ms = []")
    case True
    with "10.prems" have "length (tokens v) \<le> m" by (simp add: n)
    from "10.IH"(1) [OF this] True show ?thesis
      by (simp add: n)
  next
    case False
    with "10.prems" have a: "length (tokens v) \<le> m" and b: "length (tokens_members ms) < m"
      by (auto simp: n)
    from "10.IH"(1) [OF a] "10.IH"(2) [OF False False b] False show ?thesis
      by (simp add: n)
  qed
qed

lemma parse_json_encode: "parse_json (encode ind lvl j) = Some j"
  using parse_tokens(1) [of j "length (tokens j)" "[]"]
  by (simp add: parse_json_def lex_document)

subsection \<open>The last entry of an object\<close>

lemma encode_members_snoc:
  "es \<noteq> [] \<Longrightarrow>
     encode_members ind lvl (es @ [(k, v)]) =
       encode_members ind lvl es @ '','' @ newline_indent ind lvl @ encode_string k @ '':''
         @ encode ind lvl v"
proof (induction es)
  case Nil
  then show ?case by simp
next
  case (Cons kv es)
  obtain k' v' where kv: "kv = (k', v')" by (cases kv)
  show ?case
  proof (cases "es = []")
    case True
    then show ?thesis by (simp add: kv)
  next
    case False
    with Cons.IH show ?thesis by (simp add: kv)
  qed
qed

lemma closed_stream_empty_files:
  assumes pre: "es \<noteq> []"
  shows "written (st_fd (closed_stream f cfd pf (es @ [(k, JArr [])]))) =
        (written f @ ''{'' @ encode_members (indent_of pf) 1 es @ '',''
           @ newline_indent (indent_of pf) 1)
        @ encode_string k @ '':[]'' @ newline_indent (indent_of pf) 0 @ ''}''"
  using pre by (simp add: closed_stream_text encode_members_snoc)

lemma write_results_returned:
  assumes "write_results e cb out pf kw = (None, so, cb')"
  shows "\<exists>s. so = Some s"
proof (cases "resolve_output e out")
  case (Inl err)
  from write_results_unresolved [OF Inl, of cb pf kw] assms show ?thesis by simp
next
  case (Inr fc)
  obtain f cfd where "fc = (f, cfd)" by (cases fc)
  with Inr have "resolve_output e out = Inr (f, cfd)" by simp
  from write_results_resolved [OF this, of cb pf kw] assms show ?thesis by simp
qed

subsection \<open>The codebase after a call\<close>

lemma keys_of_as_writes: "keys (as_writes es) = keys es"
  by (simp add: as_writes_def keys_def comp_def case_prod_unfold)

lemma get_results_codebase: "snd (get_results p3 cb as_list kw) = after_call cb kw"
  by (simp add: get_results_eq split: sum.splits)

lemma get_files_value:
  "fst (get_files p3 cb kw) =
     (if p3 then Inr (MapObject (file_records cb kw)) else py_list (MapObject (file_records cb kw)))"
  by (simp add: get_files_def file_records_def)

lemma write_results_codebase:
  "snd (snd (write_results e cb out pf kw)) =
     (case resolve_output e out of Inl err \<Rightarrow> cb | Inr fc \<Rightarrow> after_call cb kw)"
  by (simp add: write_results_eq split: sum.splits prod.splits)

lemma write_results_times_injections:
  "injections (write_results_times n e cb out pf kw) =
     injections cb + (case resolve_output e out of Inl err \<Rightarrow> 0 | Inr fc \<Rightarrow> n)"
proof (induction n arbitrary: cb)
  case 0
  show ?case by (simp split: sum.splits)
next
  case (Suc n)
  show ?case
    by (simp add: Suc.IH write_results_codebase after_call_fields split: sum.splits)
qed

lemma get_results_times_injections:
  "injections (get_results_times n p3 cb as_list kw) = injections cb + n"
  by (induction n arbitrary: cb) (simp_all add: get_results_codebase after_call_fields)

section \<open>The claims\<close>

text \<open>
  Claim C1. The top-level keys of the emitted document appear in exactly the order
  \<open>headers\<close>, then the attribute keys in the order the attributes mapping yields them,
  then \<open>files\<close>, and no other key is ever emitted. Stated for every call that got a
  stream: the keys written are \<open>headers\<close>, the attribute keys, and \<open>files\<close> last when the
  call returns (when it raises, the files entry is the one left out); and the text on
  the sink is the encoding of the object that has exactly the entries written, in that
  order.
\<close>

theorem write_results_key_order:
  assumes "write_results e cb out pf kw = (r, Some s, cb')"
  shows "written_keys s =
           ''headers'' # keys (attribute_items cb) @ (if r = None then [''files''] else [])
         \<and> (\<exists>f cfd es. resolve_output e out = Inr (f, cfd) \<and> st_log s = as_writes es
               \<and> keys es = written_keys s
               \<and> written (st_fd s) = written f @ encode (indent_of pf) 0 (JObj es))"
proof -
  from write_results_stream [OF assms] obtain f cfd
    where out: "resolve_output e out = Inr (f, cfd)"
      and r: "r = outcome cb kw"
      and s: "s = closed_stream f cfd pf (entries_written cb kw)"
    by blast
  have log: "st_log s = as_writes (entries_written cb kw)"
    by (simp add: s closed_stream_log)
  have bytes: "written (st_fd s) = written f @ encode (indent_of pf) 0 (JObj (entries_written cb kw))"
    by (simp add: s closed_stream_text)
  have same: "keys (entries_written cb kw) = written_keys s"
    by (simp add: written_keys_def log keys_as_writes)
  have order: "written_keys s =
      ''headers'' # keys (attribute_items cb) @ (if r = None then [''files''] else [])"
    unfolding same [symmetric] r by (rule keys_entries_written)
  from out log bytes same order show ?thesis
    by blast
qed

theorem write_results_key_order_witness:
  "\<exists>s. fst (snd (write_results sample_env summary_codebase (Path ''scan.json'') False []))
          = Some s
       \<and> written_keys s = [''headers'', ''summary'', ''license_clarity_score'', ''files'']"
proof -
  obtain s cb' where
    run: "write_results sample_env summary_codebase (Path ''scan.json'') False []
            = (None, Some s, cb')"
    by (simp add: write_results_resolved [OF sample_resolve(1)] outcome_def sample_records)
  have "attribute_items summary_codebase =
      [(''summary'', JObj [(''holders'', JArr [])]), (''license_clarity_score'', JInt 90)]"
    by (simp add: attribute_items_def summary_codebase_def sample_codebase_def)
  with write_results_key_order [OF run] show ?thesis
    by (simp add: run keys_def)
qed

text \<open>
  Claim C2. For a codebase whose headers are \<open>{"tool_version": "1.0"}\<close>, with no
  attributes and exactly two resources, whose file records are \<open>{"path": "a.txt"}\<close>
  and \<open>{"path": "b.txt"}\<close>, \<open>write_results\<close> in compact mode returns and appends
  exactly the bytes of the scenario to the sink (so a sink that starts empty holds
  exactly them).
\<close>

theorem compact_scenario_bytes:
  assumes "headers cb = [(''tool_version'', JStr ''1.0'')]"
    and "attributes cb = None"
    and "file_records cb kw =
           [Inr (JObj [(''path'', JStr ''a.txt'')]), Inr (JObj [(''path'', JStr ''b.txt'')])]"
    and "length (resources cb) = 2"
    and "resolve_output e out = Inr (f, cfd)"
  shows \<open>\<exists>s cb'. write_results e cb out False kw = (None, Some s, cb')
           \<and> written (st_fd s) = written f @
               ''{"headers":{"tool_version":"1.0","files_count":2},"files":[{"path":"a.txt"},{"path":"b.txt"}]}''\<close>
proof -
  note count = assms(4)
  have ok: "outcome cb kw = None"
    by (simp add: outcome_def assms(3))
  have entries: "entries_written cb kw =
      [(''headers'', JObj [(''tool_version'', JStr ''1.0''), (''files_count'', JInt 2)]),
       (''files'', JArr [JObj [(''path'', JStr ''a.txt'')], JObj [(''path'', JStr ''b.txt'')]])]"
    by (simp add: entries_written_def header_and_attributes_def injected_headers_def
          attribute_items_def assms(1,2,3) count)
  have two: "str_int 2 = ''2''"
    by (simp add: str_int_def str_nat.simps digit_char_def)
  show ?thesis
    unfolding write_results_resolved [OF assms(5)] ok entries
    by (simp add: closed_stream_text indent_of_def newline_indent_def encode_string_def
          escape_char_def two)
qed

theorem compact_scenario_bytes_witness:
  \<open>\<exists>s cb'. write_results sample_env sample_codebase (Path ''scan.json'') False [] = (None, Some s, cb')
           \<and> written (st_fd s) =
               ''{"headers":{"tool_version":"1.0","files_count":2},"files":[{"path":"a.txt"},{"path":"b.txt"}]}''\<close>
proof -
  have h: "headers sample_codebase = [(''tool_version'', JStr ''1.0'')]"
    and a: "attributes sample_codebase = None"
    and r: "file_records sample_codebase [] =
           [Inr (JObj [(''path'', JStr ''a.txt'')]), Inr (JObj [(''path'', JStr ''b.txt'')])]"
    by (simp_all add: sample_codebase_def file_records_def path_record_def)
  have n: "length (resources sample_codebase) = 2"
    by (simp add: sample_codebase_def)
  from compact_scenario_bytes [OF h a r n sample_resolve(1)] show ?thesis
    by (simp add: fresh_sink_def)
qed




text \<open>
  Claim C4. Whatever the call raises or returns: for a path that can be opened, the
  sink opened from it has been closed exactly once; for a path that cannot, no sink
  exists; a sink handed in open is never closed by the call (its \<open>close\<close> count is
  what it was).
\<close>

theorem sink_closed_once_if_opened_here:
  assumes "write_results e cb out pf kw = (r, so, cb')"
  shows "(case out of
            Path p \<Rightarrow>
              (if openable e p then \<exists>s. so = Some s \<and> close_calls (st_fd s) = 1
               else so = None \<and> r = Some IOError)
          | OpenSink f \<Rightarrow> \<exists>s. so = Some s \<and> close_calls (st_fd s) = close_calls f)"
proof (cases out)
  case (Path p)
  show ?thesis
  proof (cases "openable e p")
    case True
    then have "resolve_output e out = Inr (\<lparr>written = [], close_calls = 0\<rparr>, True)"
      by (simp add: Path resolve_output_def py_open_def)
    from write_results_resolved [OF this, of cb pf kw] assms Path True show ?thesis
      by (auto simp: closed_stream_closes)
  next
    case False
    then have "resolve_output e out = Inl IOError"
      by (simp add: Path resolve_output_def py_open_def)
    from write_results_unresolved [OF this, of cb pf kw] assms Path False show ?thesis
      by auto
  qed
next
  case (OpenSink f)
  then have "resolve_output e out = Inr (f, False)"
    by (simp add: resolve_output_def)
  from write_results_resolved [OF this, of cb pf kw] assms OpenSink show ?thesis
    by (auto simp: closed_stream_closes)
qed

theorem sink_closed_once_if_opened_here_witness:
  "(\<exists>s. fst (snd (write_results sample_env sample_codebase (Path ''scan.json'') False [])) = Some s
        \<and> fst (write_results sample_env sample_codebase (Path ''scan.json'') False []) = None
        \<and> close_calls (st_fd s) = 1)
   \<and> (\<exists>s. fst (snd (write_results sample_env failing_codebase (Path ''scan.json'') False [])) = Some s
        \<and> fst (write_results sample_env failing_codebase (Path ''scan.json'') False [])
            = Some (CollaboratorError ''unreadable'')
        \<and> close_calls (st_fd s) = 1)
   \<and> (\<exists>s. fst (snd (write_results sample_env failing_codebase (OpenSink fresh_sink) True [])) = Some s
        \<and> close_calls (st_fd s) = 0)"
proof -
  obtain s1 c1 where
    run1: "write_results sample_env sample_codebase (Path ''scan.json'') False [] = (None, s1, c1)"
    by (simp add: write_results_resolved [OF sample_resolve(1)] outcome_def sample_records)
  obtain s2 c2 where
    run2: "write_results sample_env failing_codebase (Path ''scan.json'') False []
             = (Some (CollaboratorError ''unreadable''), s2, c2)"
    by (simp add: write_results_resolved [OF sample_resolve(1)] outcome_def sample_records)
  obtain r3 s3 c3 where
    run3: "write_results sample_env failing_codebase (OpenSink fresh_sink) True [] = (r3, s3, c3)"
    by (cases "write_results sample_env failing_codebase (OpenSink fresh_sink) True []") auto
  have o: "openable sample_env ''scan.json''" by (simp add: sample_env_def)
  have z: "close_calls fresh_sink = 0" by (simp add: fresh_sink_def)
  from sink_closed_once_if_opened_here [OF run1] sink_closed_once_if_opened_here [OF run2]
    sink_closed_once_if_opened_here [OF run3]
  show ?thesis
    by (simp add: run1 run2 run3 o z)
qed

text \<open>
  Claim C5. Calling \<open>write_results\<close> twice in a row on the same codebase, with the same
  render mode and options and two sinks that start empty, leaves the same bytes on
  both sinks (and the two calls raise alike).
\<close>

theorem write_results_twice_same_bytes:
  assumes "write_results e cb out1 pf kw = (r1, so1, cb1)"
    and "write_results e cb1 out2 pf kw = (r2, so2, cb2)"
    and "resolve_output e out1 = Inr (f1, c1)"
    and "resolve_output e out2 = Inr (f2, c2)"
    and "written f1 = []"
    and "written f2 = []"
  shows "r1 = r2 \<and> (\<exists>s1 s2. so1 = Some s1 \<and> so2 = Some s2
           \<and> written (st_fd s1) = written (st_fd s2))"
proof -
  from assms(1) have first: "r1 = outcome cb kw"
    "so1 = Some (closed_stream f1 c1 pf (entries_written cb kw))" "cb1 = after_call cb kw"
    by (simp_all add: write_results_resolved [OF assms(3)])
  from assms(2) have second: "r2 = outcome cb kw"
    "so2 = Some (closed_stream f2 c2 pf (entries_written cb kw))"
    by (simp_all add: write_results_resolved [OF assms(4)] first(3) after_call_same)
  show ?thesis
    by (simp add: first second closed_stream_text assms(5,6))
qed

theorem write_results_twice_same_bytes_witness:
  "\<exists>s1 s2 cb1 cb2.
      write_results sample_env summary_codebase (Path ''scan.json'') True [] = (None, Some s1, cb1)
      \<and> write_results sample_env cb1 (OpenSink fresh_sink) True [] = (None, Some s2, cb2)
      \<and> written (st_fd s1) = written (st_fd s2)"
proof -
  obtain s1 cb1 where
    run1: "write_results sample_env summary_codebase (Path ''scan.json'') True [] = (None, Some s1, cb1)"
    and cb1: "cb1 = after_call summary_codebase []"
    by (simp add: write_results_resolved [OF sample_resolve(1)] outcome_def sample_records)
  have "outcome cb1 [] = None"
    unfolding cb1 after_call_same by (simp add: outcome_def sample_records)
  then obtain s2 cb2 where
    run2: "write_results sample_env cb1 (OpenSink fresh_sink) True [] = (None, Some s2, cb2)"
    by (simp add: write_results_resolved [OF sample_resolve(3)])
  have "written fresh_sink = []" by (simp add: fresh_sink_def)
  from write_results_twice_same_bytes [OF run1 run2 sample_resolve(1) sample_resolve(3) this this]
    run1 run2
  show ?thesis by simp
qed

text \<open>
  Claim C6. The compact and the pretty output of the same codebase (the pretty call
  made on the codebase as it was, or as the compact call left it) parse, and parse to
  the same document: the object whose members are the entries written, which are the
  same in both calls. The two texts differ only in whitespace outside string
  literals.
\<close>

theorem compact_and_pretty_same_document:
  assumes "resolve_output e out1 = Inr (f1, c1)"
    and "written f1 = []"
    and "resolve_output e out2 = Inr (f2, c2)"
    and "written f2 = []"
    and "write_results e cb out1 False kw = (r1, so1, cb1)"
    and "cbx = cb \<or> cbx = cb1"
    and "write_results e cbx out2 True kw = (r2, so2, cb2)"
  shows "r1 = r2 \<and> (\<exists>s1 s2 es. so1 = Some s1 \<and> so2 = Some s2
           \<and> st_log s1 = as_writes es \<and> st_log s2 = as_writes es
           \<and> parse_json (written (st_fd s1)) = Some (JObj es)
           \<and> parse_json (written (st_fd s2)) = Some (JObj es)
           \<and> unspace Outside (written (st_fd s1)) = unspace Outside (written (st_fd s2)))"
proof -
  from assms(5) have first: "r1 = outcome cb kw"
    "so1 = Some (closed_stream f1 c1 False (entries_written cb kw))" "cb1 = after_call cb kw"
    by (simp_all add: write_results_resolved [OF assms(1)])
  from assms(6) first(3) have same: "outcome cbx kw = outcome cb kw"
    "entries_written cbx kw = entries_written cb kw"
    by (auto simp: after_call_same)
  from assms(7) have second: "r2 = outcome cb kw"
    "so2 = Some (closed_stream f2 c2 True (entries_written cb kw))"
    by (simp_all add: write_results_resolved [OF assms(3)] same)
  let ?es = "entries_written cb kw"
  let ?s1 = "closed_stream f1 c1 False ?es"
  let ?s2 = "closed_stream f2 c2 True ?es"
  have compact: "written (st_fd ?s1) = encode (indent_of False) 0 (JObj ?es)"
    by (simp only: closed_stream_text assms(2) append_Nil)
  have pretty: "written (st_fd ?s2) = encode (indent_of True) 0 (JObj ?es)"
    by (simp only: closed_stream_text assms(4) append_Nil)
  have parse1: "parse_json (written (st_fd ?s1)) = Some (JObj ?es)"
    unfolding compact by (rule parse_json_encode)
  have parse2: "parse_json (written (st_fd ?s2)) = Some (JObj ?es)"
    unfolding pretty by (rule parse_json_encode)
  have spaces: "unspace Outside (written (st_fd ?s1)) = unspace Outside (written (st_fd ?s2))"
    unfolding compact pretty by (simp only: unspace_document)
  have logs: "st_log ?s1 = as_writes ?es" "st_log ?s2 = as_writes ?es"
    by (simp_all only: closed_stream_log)
  have "\<exists>s1 s2 es. so1 = Some s1 \<and> so2 = Some s2
           \<and> st_log s1 = as_writes es \<and> st_log s2 = as_writes es
           \<and> parse_json (written (st_fd s1)) = Some (JObj es)
           \<and> parse_json (written (st_fd s2)) = Some (JObj es)
           \<and> unspace Outside (written (st_fd s1)) = unspace Outside (written (st_fd s2))"
    using first(2) second(2) logs parse1 parse2 spaces
    by (intro exI [of _ ?s1] exI [of _ ?s2] exI [of _ ?es] conjI)
  with first(1) second(1) show ?thesis
    by simp
qed

theorem compact_and_pretty_same_document_witness:
  "\<exists>s1 s2 cb1 cb2.
      write_results sample_env summary_codebase (Path ''scan.json'') False [] = (None, Some s1, cb1)
      \<and> write_results sample_env cb1 (OpenSink fresh_sink) True [] = (None, Some s2, cb2)
      \<and> written (st_fd s1) \<noteq> written (st_fd s2)
      \<and> parse_json (written (st_fd s1)) = parse_json (written (st_fd s2))
      \<and> parse_json (written (st_fd s2)) =
          Some (JObj [(''headers'', JObj [(''tool_version'', JStr ''1.0''), (''files_count'', JInt 2)]),
                      (''summary'', JObj [(''holders'', JArr [])]),
                      (''license_clarity_score'', JInt 90),
                      (''files'', JArr [JObj [(''path'', JStr ''a.txt'')],
                                        JObj [(''path'', JStr ''b.txt'')]])])"
proof -
  obtain s1 cb1 where
    run1: "write_results sample_env summary_codebase (Path ''scan.json'') False [] = (None, Some s1, cb1)"
    and cb1: "cb1 = after_call summary_codebase []"
    and s1: "s1 = closed_stream fresh_sink True False (entries_written summary_codebase [])"
    by (simp add: write_results_resolved [OF sample_resolve(1)] outcome_def sample_records)
  have "outcome cb1 [] = None"
    unfolding cb1 after_call_same by (simp add: outcome_def sample_records)
  then obtain s2 cb2 where
    run2: "write_results sample_env cb1 (OpenSink fresh_sink) True [] = (None, Some s2, cb2)"
    and s2: "s2 = closed_stream fresh_sink False True (entries_written cb1 [])"
    by (simp add: write_results_resolved [OF sample_resolve(3)])
  have fresh: "written fresh_sink = []" by (simp add: fresh_sink_def)
  have differ: "written (st_fd s1) \<noteq> written (st_fd s2)"
    unfolding s1 s2 cb1 after_call_same closed_stream_text fresh
    by (simp add: entries_written_def header_and_attributes_def indent_of_def newline_indent_def
          encode_string_def)
  have entries: "entries_written summary_codebase [] =
      [(''headers'', JObj [(''tool_version'', JStr ''1.0''), (''files_count'', JInt 2)]),
       (''summary'', JObj [(''holders'', JArr [])]),
       (''license_clarity_score'', JInt 90),
       (''files'', JArr [JObj [(''path'', JStr ''a.txt'')], JObj [(''path'', JStr ''b.txt'')]])]"
    unfolding entries_written_def sample_records
    by (simp add: header_and_attributes_def injected_headers_def attribute_items_def
          summary_codebase_def sample_codebase_def)
  have log2: "st_log s2 = as_writes (entries_written summary_codebase [])"
    unfolding s2 cb1 after_call_same by (rule closed_stream_log)
  from compact_and_pretty_same_document
         [OF sample_resolve(1) fresh sample_resolve(3) fresh run1 disjI2 [OF refl] run2]
  obtain es where "st_log s2 = as_writes es"
    and p1: "parse_json (written (st_fd s1)) = Some (JObj es)"
    and p2: "parse_json (written (st_fd s2)) = Some (JObj es)"
    by (auto simp: run1 run2)
  with log2 have "as_writes es = as_writes (entries_written summary_codebase [])"
    by simp
  then have "es = entries_written summary_codebase []"
    by (rule as_writes_inject)
  with p1 p2 run1 run2 differ entries show ?thesis
    by simp
qed

text \<open>
  Claim C7. When \<open>write_results\<close> returns, the last entry written is \<open>files\<close> and its
  value is a JSON array, the list of the file records. With no resources the array is
  empty and the text ends with the entry \<open>"files":[]\<close> and the closing brace; with
  no attributes object the only keys written are \<open>headers\<close> and \<open>files\<close>.
\<close>

theorem files_entry_is_array:
  assumes "write_results e cb out pf kw = (None, so, cb')"
  shows \<open>\<exists>s recs f cfd. so = Some s \<and> drain (file_records cb kw) = Inr recs
           \<and> resolve_output e out = Inr (f, cfd)
           \<and> last (st_log s) = (''files'', Json (JArr recs))
           \<and> (resources cb = [] \<longrightarrow>
                 recs = [] \<and>
                 written (st_fd s) =
                   written f @ ''{''
                     @ encode_members (indent_of pf) 1 (header_and_attributes cb) @ '',''
                     @ newline_indent (indent_of pf) 1
                     @ ''"files":[]'' @ newline_indent (indent_of pf) 0 @ ''}'')
           \<and> (attributes cb = None \<longrightarrow> written_keys s = [''headers'', ''files''])\<close>
proof -
  from write_results_returned [OF assms] obtain s where so: "so = Some s"
    by blast
  from write_results_stream [OF assms [unfolded so]] obtain f cfd
    where out: "resolve_output e out = Inr (f, cfd)"
      and ok: "None = outcome cb kw"
      and s: "s = closed_stream f cfd pf (entries_written cb kw)"
    by blast
  from ok obtain recs where recs: "drain (file_records cb kw) = Inr recs"
    by (cases "drain (file_records cb kw)") (simp_all add: outcome_def)
  have log: "st_log s = as_writes (entries_written cb kw)"
    by (simp add: s closed_stream_log)
  have entries: "entries_written cb kw = header_and_attributes cb @ [(''files'', JArr recs)]"
    by (simp add: entries_written_def recs)
  have final: "last (st_log s) = (''files'', Json (JArr recs))"
    by (simp add: log last_entries_written [OF recs])
  have empty: \<open>recs = [] \<and>
       written (st_fd s) =
         written f @ ''{''
           @ encode_members (indent_of pf) 1 (header_and_attributes cb) @ '',''
           @ newline_indent (indent_of pf) 1
           @ ''"files":[]'' @ newline_indent (indent_of pf) 0 @ ''}''\<close>
    if none: "resources cb = []"
  proof -
    from recs none have nil: "recs = []"
      by (simp add: file_records_def)
    have pre: "header_and_attributes cb \<noteq> []"
      by (simp add: header_and_attributes_def)
    have name: \<open>encode_string ''files'' = ''"files"''\<close>
      by (simp add: encode_string_def escape_char_def)
    have "written (st_fd s) =
        (written f @ ''{'' @ encode_members (indent_of pf) 1 (header_and_attributes cb) @ '',''
           @ newline_indent (indent_of pf) 1)
        @ encode_string ''files'' @ '':[]'' @ newline_indent (indent_of pf) 0 @ ''}''"
      unfolding s entries nil by (rule closed_stream_empty_files [OF pre])
    with nil show ?thesis
      by (simp add: name)
  qed
  have bare: "written_keys s = [''headers'', ''files'']" if "attributes cb = None"
    using that
    by (simp add: written_keys_def log keys_as_writes entries keys_def header_and_attributes_def
          attribute_items_def)
  show ?thesis
    using so recs out final empty bare by (intro exI [of _ s] exI [of _ recs] exI [of _ f] exI [of _ cfd]) simp
qed

theorem files_entry_is_array_witness:
  \<open>\<exists>s cb'. write_results sample_env empty_codebase (Path ''scan.json'') False [] = (None, Some s, cb')
     \<and> last (st_log s) = (''files'', Json (JArr []))
     \<and> written_keys s = [''headers'', ''files'']
     \<and> written (st_fd s) = ''{"headers":{"tool_version":"1.0","files_count":0},"files":[]}''\<close>
proof -
  obtain s cb' where
    run: "write_results sample_env empty_codebase (Path ''scan.json'') False [] = (None, Some s, cb')"
    by (simp add: write_results_resolved [OF sample_resolve(1)] outcome_def sample_records)
  have facts: "resources empty_codebase = []" "attributes empty_codebase = None"
    by (simp_all add: empty_codebase_def sample_codebase_def)
  have zero: "str_int 0 = ''0''"
    by (simp add: str_int_def str_nat.simps digit_char_def)
  have hdr: "header_and_attributes empty_codebase =
      [(''headers'', JObj [(''tool_version'', JStr ''1.0''), (''files_count'', JInt 0)])]"
    by (simp add: header_and_attributes_def injected_headers_def attribute_items_def
          empty_codebase_def sample_codebase_def)
  from files_entry_is_array [OF run] obtain s' where
    "s' = s" "last (st_log s') = (''files'', Json (JArr []))"
    "written_keys s' = [''headers'', ''files'']"
    "written (st_fd s') =
       written fresh_sink @ ''{''
         @ encode_members (indent_of False) 1 (header_and_attributes empty_codebase) @ '',''
         @ newline_indent (indent_of False) 1
         @ encode_string ''files'' @ '':[]'' @ newline_indent (indent_of False) 0 @ ''}''"
    by (auto simp: facts sample_records sample_resolve(1) encode_string_def escape_char_def)
  then show ?thesis
    by (simp add: run hdr zero indent_of_def newline_indent_def encode_string_def escape_char_def
          fresh_sink_def)
qed

text \<open>
  Claim C8, as amended. When the attribute keys are distinct and none of them is
  \<open>headers\<close> or \<open>files\<close>, the mapping \<open>get_results\<close> returns has the keys
  \<open>headers\<close>, then the attribute keys, then \<open>files\<close>; the files value is what
  \<open>get_files\<close> returned (on Python 3 the lazy map object itself) when \<open>as_list\<close> is
  false, and the realized list when it is true.
\<close>

theorem get_results_ordered_mapping:
  assumes "get_results p3 cb as_list kw = (Inr results, cb')"
    and "distinct (keys (attribute_items cb))"
    and "''headers'' \<notin> set (keys (attribute_items cb))"
    and "''files'' \<notin> set (keys (attribute_items cb))"
  shows "\<exists>files.
           results = (''headers'', Json (JObj (injected_headers cb)))
                       # as_writes (attribute_items cb) @ [(''files'', files)]
           \<and> keys results = ''headers'' # keys (attribute_items cb) @ [''files'']
           \<and> (if as_list
                then \<exists>recs. drain (file_records cb kw) = Inr recs \<and> files = Json (JArr recs)
                else fst (get_files p3 cb kw) = Inr files)
           \<and> (p3 \<and> \<not> as_list \<longrightarrow> files = MapObject (file_records cb kw))"
proof -
  let ?head = "[(''headers'', Json (JObj (injected_headers cb)))]"
  let ?attrs = "as_writes (attribute_items cb)"
  let ?got = "if p3 \<and> \<not> as_list then Inr (MapObject (file_records cb kw))
                else py_list (MapObject (file_records cb kw))"
  have apart: "set (keys ?head) \<inter> set (keys ?attrs) = {}"
    using assms(3) by (simp add: keys_of_as_writes) (simp add: keys_def)
  have update: "dict_update ?head ?attrs = ?head @ ?attrs"
    using assms(2) apart by (intro dict_update_new) (simp_all add: keys_of_as_writes)
  have new: "''files'' \<notin> set (keys (?head @ ?attrs))"
    using assms(4) keys_of_as_writes [of "attribute_items cb"] by (simp add: keys_def)
  from assms(1) obtain files where files: "?got = Inr files"
    and results: "results = dict_set (dict_update ?head ?attrs) ''files'' files"
    by (cases ?got) (simp_all add: get_results_eq)
  have shape: "results = (''headers'', Json (JObj (injected_headers cb)))
                       # as_writes (attribute_items cb) @ [(''files'', files)]"
    unfolding results update dict_set_new [OF new] by simp
  have order: "keys results = ''headers'' # keys (attribute_items cb) @ [''files'']"
    using keys_of_as_writes [of "attribute_items cb"] by (simp add: shape keys_def)
  have realized: "\<exists>recs. drain (file_records cb kw) = Inr recs \<and> files = Json (JArr recs)"
    if as_list
    using that files by (simp add: py_list_MapObject split: sum.splits)
  have itself: "fst (get_files p3 cb kw) = Inr files" if "\<not> as_list"
    using that files by (simp add: get_files_value split: if_splits)
  have lazy: "files = MapObject (file_records cb kw)" if "p3 \<and> \<not> as_list"
    using that files by simp
  show ?thesis
    using shape order realized itself lazy by (intro exI [of _ files]) simp
qed

theorem get_results_ordered_mapping_witness:
  "(\<exists>cb'. get_results True summary_codebase False [] =
      (Inr [(''headers'', Json (JObj [(''tool_version'', JStr ''1.0''), (''files_count'', JInt 2)])),
            (''summary'', Json (JObj [(''holders'', JArr [])])),
            (''license_clarity_score'', Json (JInt 90)),
            (''files'', MapObject (file_records summary_codebase []))], cb'))
   \<and> (\<exists>cb'. get_results True summary_codebase True [] =
      (Inr [(''headers'', Json (JObj [(''tool_version'', JStr ''1.0''), (''files_count'', JInt 2)])),
            (''summary'', Json (JObj [(''holders'', JArr [])])),
            (''license_clarity_score'', Json (JInt 90)),
            (''files'', Json (JArr [JObj [(''path'', JStr ''a.txt'')],
                                     JObj [(''path'', JStr ''b.txt'')]]))], cb'))"
proof -
  have attrs: "attribute_items summary_codebase =
      [(''summary'', JObj [(''holders'', JArr [])]), (''license_clarity_score'', JInt 90)]"
    by (simp add: attribute_items_def summary_codebase_def sample_codebase_def)
  have hdrs: "injected_headers summary_codebase =
      [(''tool_version'', JStr ''1.0''), (''files_count'', JInt 2)]"
    by (simp add: injected_headers_def summary_codebase_def sample_codebase_def)
  have ks: "distinct (keys (attribute_items summary_codebase))"
    "''headers'' \<notin> set (keys (attribute_items summary_codebase))"
    "''files'' \<notin> set (keys (attribute_items summary_codebase))"
    by (simp_all add: attrs keys_def)
  obtain res1 cb1 where
    run1: "get_results True summary_codebase False [] = (Inr res1, cb1)"
    by (simp add: get_results_eq)
  obtain res2 cb2 where
    run2: "get_results True summary_codebase True [] = (Inr res2, cb2)"
    by (simp add: get_results_eq py_list_MapObject sample_records)
  from get_results_ordered_mapping [OF run1 ks] get_results_ordered_mapping [OF run2 ks]
  show ?thesis
    by (auto simp: run1 run2 attrs hdrs as_writes_def sample_records)
qed

text \<open>
  Claim C8 as stated fails: \<open>results.update\<close> and \<open>results['files'] = files\<close> store
  under a key that is present where it stands. With an attribute named \<open>files\<close>
  followed by one named \<open>summary\<close>, the keys are \<open>headers\<close>, \<open>files\<close>, \<open>summary\<close>:
  \<open>files\<close> is not last.
\<close>

theorem get_results_key_clash:
  "result_keys (get_results True clashing_codebase False []) = [''headers'', ''files'', ''summary'']
   \<and> result_keys (get_results True clashing_codebase False [])
        \<noteq> ''headers'' # keys (attribute_items clashing_codebase) @ [''files'']"
  by (simp add: result_keys_def get_results_eq as_writes_def attribute_items_def keys_def
        clashing_codebase_def sample_codebase_def)

text \<open>
  Claim C9, as amended. A call of \<open>get_results\<close>, and a call of \<open>write_results\<close> that
  gets its sink, injects the file count exactly once, whether or not it raises later;
  a call of \<open>write_results\<close> whose path cannot be opened injects nothing. So \<open>n\<close>
  calls in a row inject \<open>n\<close> times (none when the path cannot be opened), and besides
  the headers holding the injected count nothing of the codebase changes.
\<close>

theorem injection_once_per_call:
  "injections (snd (snd (write_results e cb out pf kw))) =
     injections cb + (case resolve_output e out of Inl err \<Rightarrow> 0 | Inr fc \<Rightarrow> 1)
   \<and> injections (snd (get_results p3 cb as_list kw)) = injections cb + 1
   \<and> injections (write_results_times n e cb out pf kw) =
       injections cb + (case resolve_output e out of Inl err \<Rightarrow> 0 | Inr fc \<Rightarrow> n)
   \<and> injections (get_results_times n p3 cb as_list kw) = injections cb + n
   \<and> (let cb' = snd (snd (write_results e cb out pf kw)) in
        attributes cb' = attributes cb \<and> resources cb' = resources cb
        \<and> selected cb' = selected cb
        \<and> to_dict cb' = to_dict cb
        \<and> headers cb' =
            (case resolve_output e out of Inl err \<Rightarrow> headers cb | Inr fc \<Rightarrow> injected_headers cb))
   \<and> (let cb' = snd (get_results p3 cb as_list kw) in
        attributes cb' = attributes cb \<and> resources cb' = resources cb
        \<and> selected cb' = selected cb
        \<and> to_dict cb' = to_dict cb \<and> headers cb' = injected_headers cb)"
proof -
  have one: "injections (snd (snd (write_results e cb out pf kw))) =
     injections cb + (case resolve_output e out of Inl err \<Rightarrow> 0 | Inr fc \<Rightarrow> 1)"
    by (simp add: write_results_codebase after_call_fields split: sum.splits)
  have two: "injections (snd (get_results p3 cb as_list kw)) = injections cb + 1"
    by (simp add: get_results_codebase after_call_fields)
  have frame1: "(let cb' = snd (snd (write_results e cb out pf kw)) in
        attributes cb' = attributes cb \<and> resources cb' = resources cb
        \<and> selected cb' = selected cb
        \<and> to_dict cb' = to_dict cb
        \<and> headers cb' =
            (case resolve_output e out of Inl err \<Rightarrow> headers cb | Inr fc \<Rightarrow> injected_headers cb))"
    by (simp add: write_results_codebase after_call_fields split: sum.splits)
  have frame2: "(let cb' = snd (get_results p3 cb as_list kw) in
        attributes cb' = attributes cb \<and> resources cb' = resources cb
        \<and> selected cb' = selected cb
        \<and> to_dict cb' = to_dict cb \<and> headers cb' = injected_headers cb)"
    by (simp add: get_results_codebase after_call_fields)
  from one two write_results_times_injections get_results_times_injections frame1 frame2
  show ?thesis by blast
qed

theorem injection_once_per_call_witness:
  "injections (snd (snd (write_results sample_env failing_codebase (Path ''scan.json'') True []))) = 1
   \<and> injections (snd (get_results True sample_codebase False [])) = 1
   \<and> injections (write_results_times 3 sample_env sample_codebase (OpenSink fresh_sink) False []) = 3
   \<and> injections (get_results_times 3 True sample_codebase True []) = 3"
proof -
  have zero: "injections sample_codebase = 0" "injections failing_codebase = 0"
    by (simp_all add: injections_def sample_codebase_def failing_codebase_def)
  from injection_once_per_call
         [of sample_env failing_codebase "Path ''scan.json''" True "[]" True False 3]
    injection_once_per_call
         [of sample_env sample_codebase "OpenSink fresh_sink" False "[]" True False 3]
    injection_once_per_call
         [of sample_env sample_codebase "OpenSink fresh_sink" False "[]" True True 3]
  show ?thesis
    by (simp add: zero sample_resolve)
qed

text \<open>
  Claim C9 as stated fails: \<open>open\<close> (line 137) runs before the injection (line 143),
  so a call of \<open>write_results\<close> with a path that cannot be opened raises without
  injecting the file count.
\<close>

theorem write_results_unopened_no_injection:
  "fst (write_results sample_env sample_codebase (Path ''/missing/scan.json'') False [])
     = Some IOError
   \<and> injections (snd (snd (write_results sample_env sample_codebase
                             (Path ''/missing/scan.json'') False [])))
       = injections sample_codebase
   \<and> injections (snd (snd (write_results sample_env sample_codebase
                             (Path ''/missing/scan.json'') False [])))
       \<noteq> injections sample_codebase + 1"
  by (simp add: write_results_unresolved [OF sample_resolve(2)])

text \<open>
  Claim C10. On Python 3 \<open>get_files\<close> returns a lazy map object, and \<open>write_results\<close>
  drains it whole before the files entry is written: no lazy value is ever handed to a
  \<open>write\<close>; when draining succeeds the files entry is one \<open>write\<close> of the realized
  list, one record per item of the sequence; when draining raises nothing is written
  for the files.
\<close>

theorem files_drained_before_write:
  assumes "py3 e"
    and "write_results e cb out pf kw = (r, Some s, cb')"
  shows "fst (get_files (py3 e) cb kw) = Inr (MapObject (file_records cb kw))
         \<and> filter (\<lambda>kv. is_lazy (snd kv)) (st_log s) = []
         \<and> (case py_list (MapObject (file_records cb kw)) of
               Inl err \<Rightarrow> r = Some err \<and> st_log s = as_writes (header_and_attributes cb)
             | Inr files \<Rightarrow>
                 r = None
                 \<and> st_log s = as_writes (header_and_attributes cb) @ [(''files'', files)]
                 \<and> (\<exists>recs. files = Json (JArr recs) \<and> drain (file_records cb kw) = Inr recs
                       \<and> length recs = length (file_records cb kw)))"
proof -
  from write_results_stream [OF assms(2)] obtain f cfd
    where r: "r = outcome cb kw"
      and s: "s = closed_stream f cfd pf (entries_written cb kw)"
    by blast
  have log: "st_log s = as_writes (entries_written cb kw)"
    by (simp add: s closed_stream_log)
  have lazy: "fst (get_files (py3 e) cb kw) = Inr (MapObject (file_records cb kw))"
    using assms(1) by (simp add: get_files_value)
  have none: "filter (\<lambda>kv. is_lazy (snd kv)) (st_log s) = []"
    by (simp add: log as_writes_def is_lazy_def filter_empty_conv case_prod_unfold)
  have drained: "(case py_list (MapObject (file_records cb kw)) of
               Inl err \<Rightarrow> r = Some err \<and> st_log s = as_writes (header_and_attributes cb)
             | Inr files \<Rightarrow>
                 r = None
                 \<and> st_log s = as_writes (header_and_attributes cb) @ [(''files'', files)]
                 \<and> (\<exists>recs. files = Json (JArr recs) \<and> drain (file_records cb kw) = Inr recs
                       \<and> length recs = length (file_records cb kw)))"
  proof (cases "drain (file_records cb kw)")
    case (Inl err)
    then show ?thesis
      by (simp add: py_list_MapObject r outcome_def log entries_written_def)
  next
    case (Inr recs)
    have "length recs = length (file_records cb kw)"
      using drain_length [OF Inr] by simp
    with Inr show ?thesis
      by (simp add: py_list_MapObject r outcome_def log entries_written_def as_writes_def)
  qed
  from lazy none drained show ?thesis
    by simp
qed

theorem files_drained_before_write_witness:
  "(\<exists>s cb'. write_results sample_env sample_codebase (Path ''scan.json'') False []
       = (None, Some s, cb')
     \<and> last (st_log s) =
         (''files'', Json (JArr [JObj [(''path'', JStr ''a.txt'')],
                                  JObj [(''path'', JStr ''b.txt'')]])))
   \<and> (\<exists>s cb'. write_results sample_env failing_codebase (Path ''scan.json'') False []
       = (Some (CollaboratorError ''unreadable''), Some s, cb')
     \<and> written_keys s = [''headers''])"
proof -
  have p: "py3 sample_env" by (simp add: sample_env_def)
  obtain s1 c1 where
    run1: "write_results sample_env sample_codebase (Path ''scan.json'') False []
             = (None, Some s1, c1)"
    by (simp add: write_results_resolved [OF sample_resolve(1)] outcome_def sample_records)
  obtain s2 c2 where
    run2: "write_results sample_env failing_codebase (Path ''scan.json'') False []
             = (Some (CollaboratorError ''unreadable''), Some s2, c2)"
    by (simp add: write_results_resolved [OF sample_resolve(1)] outcome_def sample_records)
  have h: "attribute_items sample_codebase = []" "attribute_items failing_codebase = []"
    by (simp_all add: attribute_items_def sample_codebase_def failing_codebase_def)
  from files_drained_before_write [OF p run1] files_drained_before_write [OF p run2]
  show ?thesis
    by (simp add: run1 run2 py_list_MapObject sample_records written_keys_def
          header_and_attributes_def as_writes_def h)
qed

end
